theory Spec2Isabelle
  imports Complex_Main "HOL-Library.Multiset"
begin

section \<open>Python values, objects and exceptions\<close>

text \<open>
  The data provider of \<^verbatim>\<open>mltu/dataProvider.py\<close> handles three sorts of Python values:
  \<^verbatim>\<open>None\<close>, immutable scalars (numbers and strings) and mutable objects (arrays, tensors,
  anything else). Mutable objects live in an explicit store so that aliasing and
  \<^verbatim>\<open>copy.deepcopy\<close> mean what they mean in Python: a value is a reference, and a deep copy
  is a new object.
\<close>

type_synonym addr = nat

datatype scalar = PyInt int | PyFloat rat | PyStr string | NpUint8 nat

datatype val = PyNone | Scalar scalar | Ref addr

text \<open>
  The class of an object decides the two \<^verbatim>\<open>isinstance\<close> tests at the end of
  \<^verbatim>\<open>process_data\<close>: a NumPy array, an object with a \<^verbatim>\<open>numpy()\<close> method (a tensor), or
  any other object. An object's payload is the flat list of its elements.
\<close>

datatype kind = NdArray | Tensor | OtherObject

type_synonym cell = "kind \<times> scalar list"

text \<open>
  The store gives every address an object; the addresses below \<open>nxt\<close> are the ones
  allocated so far, and a new object takes the address \<open>nxt\<close>.
\<close>

record heap =
  cells :: "addr \<Rightarrow> cell"
  nxt :: addr

datatype error =
    TypeError | ValueError | AttributeError | FileNotFoundError
  | ZeroDivisionError | IndexError | OverflowError | StageError string

definition alloc :: "cell \<Rightarrow> heap \<Rightarrow> addr \<times> heap" where
  "alloc c h = (nxt h, h\<lparr>cells := (cells h)(nxt h := c), nxt := Suc (nxt h)\<rparr>)"

fun val_refs :: "val \<Rightarrow> addr set" where
  "val_refs (Ref a) = {a}"
| "val_refs _ = {}"

text \<open>
  \<^verbatim>\<open>copy.deepcopy\<close> keeps a memo from the objects already copied to their copies, so
  that two references to one object stay two references to one copy. \<^verbatim>\<open>None\<close> and
  scalars are immutable and are returned as they are.
\<close>

fun deepcopy_memo :: "(addr \<times> addr) list \<Rightarrow> val \<Rightarrow> heap \<Rightarrow> val \<times> (addr \<times> addr) list \<times> heap" where
  "deepcopy_memo memo (Ref a) h =
     (case map_of memo a of
        Some b \<Rightarrow> (Ref b, memo, h)
      | None \<Rightarrow> (let (b, h') = alloc (cells h a) h in (Ref b, (a, b) # memo, h')))"
| "deepcopy_memo memo v h = (v, memo, h)"

definition deepcopy :: "val \<Rightarrow> heap \<Rightarrow> val \<times> heap" where
  "deepcopy v h = (let (v', memo, h') = deepcopy_memo [] v h in (v', h'))"

text \<open>\<^verbatim>\<open>copy.deepcopy\<close> of a 2-tuple: one call, one memo for both components.\<close>

definition deepcopy_pair :: "val \<times> val \<Rightarrow> heap \<Rightarrow> (val \<times> val) \<times> heap" where
  "deepcopy_pair p h =
     (let (d, memo1, h1) = deepcopy_memo [] (fst p) h;
          (a, memo2, h2) = deepcopy_memo memo1 (snd p) h1
      in ((d, a), h2))"

section \<open>Python list indexing and slicing\<close>

definition py_getitem :: "'a list \<Rightarrow> int \<Rightarrow> error + 'a" where
  "py_getitem xs i =
     (if 0 \<le> i \<and> i < int (length xs) then Inr (xs ! nat i)
      else if i < 0 \<and> - int (length xs) \<le> i then Inr (xs ! nat (int (length xs) + i))
      else Inl IndexError)"

text \<open>
  A slice bound is clamped into the list; a negative bound counts from the end of the
  list.
\<close>

definition slice_bound :: "'a list \<Rightarrow> int \<Rightarrow> nat" where
  "slice_bound xs k =
     (if 0 \<le> k then min (length xs) (nat k) else length xs - nat (- k))"

definition slice_to :: "'a list \<Rightarrow> int \<Rightarrow> 'a list" where
  "slice_to xs k = take (slice_bound xs k) xs"

definition slice_from :: "'a list \<Rightarrow> int \<Rightarrow> 'a list" where
  "slice_from xs k = drop (slice_bound xs k) xs"

text \<open>A list comprehension whose element expression may raise: the first error wins.\<close>

fun collect :: "('a \<Rightarrow> error + 'b) \<Rightarrow> 'a list \<Rightarrow> error + 'b list" where
  "collect f [] = Inr []"
| "collect f (x # xs) =
     (case f x of
        Inl e \<Rightarrow> Inl e
      | Inr y \<Rightarrow> (case collect f xs of Inl e \<Rightarrow> Inl e | Inr ys \<Rightarrow> Inr (y # ys)))"

text \<open>\<^verbatim>\<open>range(a, b)\<close> as a list.\<close>

definition py_range :: "int \<Rightarrow> int \<Rightarrow> int list" where
  "py_range a b = [a .. b - 1]"


section \<open>Double-precision quotients\<close>

text \<open>
  \<^verbatim>\<open>len(self._dataset) / self._batch_size\<close> is Python's true division of two integers:
  the exact quotient rounded once to the nearest IEEE binary64 number (ties to even),
  \<^verbatim>\<open>ZeroDivisionError\<close> for a zero divisor and \<^verbatim>\<open>OverflowError\<close> when the result
  exceeds the range. The rounding is written out on rationals.
\<close>

fun ilog2 :: "nat \<Rightarrow> nat" where
  "ilog2 n = (if n < 2 then 0 else Suc (ilog2 (n div 2)))"

declare ilog2.simps [simp del]

definition pow2 :: "int \<Rightarrow> rat" where
  "pow2 k = (if 0 \<le> k then 2 ^ nat k else 1 / 2 ^ nat (- k))"

text \<open>The exponent \<open>e\<close> with \<open>2 ^ e \<le> a / b < 2 ^ (e + 1)\<close>, for positive \<open>a\<close> and \<open>b\<close>.\<close>

definition quot_exponent :: "nat \<Rightarrow> nat \<Rightarrow> int" where
  "quot_exponent a b =
     (let e0 = int (ilog2 a) - int (ilog2 b)
      in if pow2 e0 \<le> of_nat a / of_nat b then e0 else e0 - 1)"

definition round_half_even :: "rat \<Rightarrow> int" where
  "round_half_even x =
     (let f = \<lfloor>x\<rfloor>; d = x - of_int f
      in if d < 1 / 2 then f
         else if d > 1 / 2 then f + 1
         else if even f then f else f + 1)"

text \<open>
  The binary64 number nearest to \<open>a / b\<close> (\<open>a\<close>, \<open>b\<close> positive): 53 significant bits,
  least exponent \<open>- 1074\<close>.
\<close>

definition round_quotient :: "nat \<Rightarrow> nat \<Rightarrow> rat" where
  "round_quotient a b =
     (let ex = max (quot_exponent a b - 52) (- 1074)
      in of_int (round_half_even ((of_nat a / of_nat b) / pow2 ex)) * pow2 ex)"

definition py_true_div :: "int \<Rightarrow> int \<Rightarrow> error + rat" where
  "py_true_div a b =
     (if b = 0 then Inl ZeroDivisionError
      else if a = 0 then Inr 0
      else let r = round_quotient (nat \<bar>a\<bar>) (nat \<bar>b\<bar>)
           in if pow2 1024 \<le> r then Inl OverflowError
              else Inr (if (a < 0) = (b < 0) then r else - r))"

section \<open>The provider\<close>

text \<open>
  A sample descriptor is a row of the dataset: the path of the resource and its label.
  Rows hold scalars, so two rows are equal when their fields are.
\<close>

type_synonym descriptor = "string \<times> scalar"

text \<open>
  A pipeline stage is a callable \<^verbatim>\<open>(data, annotation) -> (data, annotation)\<close>. It may
  raise, allocate objects and write to objects, so it maps a store to a result and a
  store. A stage object carries the class the setters test with \<^verbatim>\<open>isinstance\<close>.
\<close>

type_synonym stage_fn = "val \<times> val \<Rightarrow> heap \<Rightarrow> (error + val \<times> val) \<times> heap"

datatype stage = AugmentorObj stage_fn | TransformerObj stage_fn | OtherCallable stage_fn

fun call_stage :: "stage \<Rightarrow> stage_fn" where
  "call_stage (AugmentorObj f) = f"
| "call_stage (TransformerObj f) = f"
| "call_stage (OtherCallable f) = f"

fun is_Augmentor :: "stage \<Rightarrow> bool" where
  "is_Augmentor (AugmentorObj f) = True"
| "is_Augmentor _ = False"

fun is_Transformer :: "stage \<Rightarrow> bool" where
  "is_Transformer (TransformerObj f) = True"
| "is_Transformer _ = False"

text \<open>The calls made on \<^verbatim>\<open>self.logger\<close>, in order.\<close>

datatype log_call =
    InfoSkippingValidation
  | InfoLimiting int
  | WarnNotAugmentor stage
  | WarnNotTransformer stage
  | WarnRemoving descriptor
  | WarnMarkedForRemoval
  | WarnSkipping

text \<open>
  The attributes of a \<^verbatim>\<open>DataProvider\<close>. The dataset is a list of rows; the cache is a
  dictionary from a row's path to the preprocessed pair; the two stage lists may be
  \<^verbatim>\<open>None\<close>, which the setters test for.
\<close>

record provider =
  dataset :: "descriptor list"
  data_preprocessors :: "stage_fn list"
  batch_size :: int
  shuffle :: bool
  epoch :: int
  augmentors :: "stage list option"
  transformers :: "stage list option"
  skip_validation :: bool
  limit :: "int option"
  use_cache :: bool
  step :: int
  cache :: "(string \<times> (val \<times> val)) list"
  on_epoch_end_remove :: "descriptor list"
  logger :: "log_call list"

subsection \<open>\<^verbatim>\<open>__len__\<close>\<close>

text \<open>\<^verbatim>\<open>int(np.ceil(len(self._dataset) / self._batch_size))\<close>\<close>

definition len :: "provider \<Rightarrow> error + int" where
  "len p =
     (case py_true_div (int (length (dataset p))) (batch_size p) of
        Inl e \<Rightarrow> Inl e
      | Inr q \<Rightarrow> Inr \<lceil>q\<rceil>)"

subsection \<open>The \<^verbatim>\<open>augmentors\<close> and \<^verbatim>\<open>transformers\<close> setters\<close>

text \<open>
  The setters append to the list object that the attribute refers to while they iterate
  over the assigned object, and the getters return that very list object, so the assigned
  object and the provider's list can be one object (\<^verbatim>\<open>provider.augmentors += [x]\<close> assigns
  the list the getter returned). For the setters the stage lists are therefore objects in a
  store of their own: \<^verbatim>\<open>_augmentors\<close> and \<^verbatim>\<open>_transformers\<close> hold \<^verbatim>\<open>None\<close> or the address of a
  list, and the assigned list is an address too. \<^verbatim>\<open>logged\<close> is what \<^verbatim>\<open>self.logger\<close> has
  received.
\<close>

record registrations =
  items :: "addr \<Rightarrow> stage list"
  next_list :: addr
  own_augmentors :: "addr option"
  own_transformers :: "addr option"
  logged :: "log_call list"

text \<open>
  \<^verbatim>\<open>for augmentor in augmentors\<close>: the list iterator keeps the list and an index, and ends
  at the first index that is not below the length the list has at that moment. The body
  reads \<^verbatim>\<open>self._augmentors\<close> anew in each round; \<^verbatim>\<open>[augmentor]\<close> is a new list object. A loop
  that never ends has the value \<^verbatim>\<open>None\<close>. The value the setter returns is dropped by the
  assignment statement.
\<close>

partial_function (option) augmentors_loop ::
    "addr \<Rightarrow> nat \<Rightarrow> registrations \<Rightarrow> registrations option" where
  "augmentors_loop arg i r =
     (if i < length (items r arg) then
        (if is_Augmentor (items r arg ! i) then
           (case own_augmentors r of
              Some own \<Rightarrow>
                augmentors_loop arg (i + 1)
                  (r\<lparr>items := (items r)(own := items r own @ [items r arg ! i])\<rparr>)
            | None \<Rightarrow>
                augmentors_loop arg (i + 1)
                  (r\<lparr>items := (items r)(next_list r := [items r arg ! i]),
                     next_list := next_list r + 1,
                     own_augmentors := Some (next_list r)\<rparr>))
         else augmentors_loop arg (i + 1)
                (r\<lparr>logged := logged r @ [WarnNotAugmentor (items r arg ! i)]\<rparr>))
      else Some r)"

definition augmentors_setter :: "registrations \<Rightarrow> addr \<Rightarrow> registrations option" where
  "augmentors_setter r arg = augmentors_loop arg 0 r"

partial_function (option) transformers_loop ::
    "addr \<Rightarrow> nat \<Rightarrow> registrations \<Rightarrow> registrations option" where
  "transformers_loop arg i r =
     (if i < length (items r arg) then
        (if is_Transformer (items r arg ! i) then
           (case own_transformers r of
              Some own \<Rightarrow>
                transformers_loop arg (i + 1)
                  (r\<lparr>items := (items r)(own := items r own @ [items r arg ! i])\<rparr>)
            | None \<Rightarrow>
                transformers_loop arg (i + 1)
                  (r\<lparr>items := (items r)(next_list r := [items r arg ! i]),
                     next_list := next_list r + 1,
                     own_transformers := Some (next_list r)\<rparr>))
         else transformers_loop arg (i + 1)
                (r\<lparr>logged := logged r @ [WarnNotTransformer (items r arg ! i)]\<rparr>))
      else Some r)"

definition transformers_setter :: "registrations \<Rightarrow> addr \<Rightarrow> registrations option" where
  "transformers_setter r arg = transformers_loop arg 0 r"

subsection \<open>\<^verbatim>\<open>on_epoch_end\<close>\<close>



subsection \<open>\<^verbatim>\<open>get_batch_annotations\<close>\<close>

definition get_batch_annotations :: "provider \<Rightarrow> int \<Rightarrow> (error + descriptor list) \<times> provider" where
  "get_batch_annotations p index =
     (let p1 = p\<lparr>step := index\<rparr>;
          start_index = index * batch_size p1;
          batch_indexes = filter (\<lambda>i. i < int (length (dataset p1)))
                            (py_range start_index (start_index + batch_size p1))
      in (collect (py_getitem (dataset p1)) batch_indexes, p1))"

subsection \<open>\<^verbatim>\<open>validate\<close> and \<^verbatim>\<open>validate_list_dataset\<close>\<close>

text \<open>
  The \<^verbatim>\<open>dataset\<close> argument is a path string, a list of rows, a data frame (whose
  \<^verbatim>\<open>values.tolist()\<close> are its rows) or an object of another type. \<^verbatim>\<open>os.path.exists\<close>
  is the parameter \<open>path_exists\<close>. \<^verbatim>\<open>validate\<close> returns a Python value; where no
  \<^verbatim>\<open>return\<close> statement is reached that value is \<^verbatim>\<open>None\<close>.
\<close>

datatype dataset_arg =
    PathStr string
  | RowList "descriptor list"
  | DataFrame "descriptor list"
  | OtherType

definition validate_list_dataset :: "(string \<Rightarrow> bool) \<Rightarrow> descriptor list \<Rightarrow> error + descriptor list" where
  "validate_list_dataset path_exists rows =
     (let validated_data = filter (\<lambda>data. path_exists (fst data)) rows
      in if validated_data = [] then Inl FileNotFoundError else Inr validated_data)"

fun validate :: "(string \<Rightarrow> bool) \<Rightarrow> dataset_arg \<Rightarrow> bool \<Rightarrow> error + dataset_arg option" where
  "validate path_exists (PathStr s) skip =
     (if path_exists s then Inr (Some (PathStr s)) else Inr None)"
| "validate path_exists (RowList rows) skip =
     (case validate_list_dataset path_exists rows of
        Inl e \<Rightarrow> Inl e
      | Inr validated \<Rightarrow> Inr (Some (RowList validated)))"
| "validate path_exists (DataFrame rows) skip =
     (case validate_list_dataset path_exists rows of
        Inl e \<Rightarrow> Inl e
      | Inr validated \<Rightarrow> Inr (Some (RowList validated)))"
| "validate path_exists OtherType skip = Inl TypeError"

subsection \<open>\<^verbatim>\<open>__init__\<close>\<close>

text \<open>
  A call binds its arguments to the parameters of the callee before the body runs:
  more positional arguments than parameters, or a keyword that names no parameter,
  raise \<^verbatim>\<open>TypeError\<close>. The parameter lists are those of the \<^verbatim>\<open>def\<close> lines, without
  \<^verbatim>\<open>self\<close>.
\<close>

definition bind_positional :: "string list \<Rightarrow> nat \<Rightarrow> error + unit" where
  "bind_positional params n = (if n \<le> length params then Inr () else Inl TypeError)"

definition bind_keywords :: "string list \<Rightarrow> string list \<Rightarrow> error + unit" where
  "bind_keywords params keywords =
     (if list_all (\<lambda>k. k \<in> set params) keywords then Inr () else Inl TypeError)"

definition validate_params :: "string list" where
  "validate_params = [''dataset'', ''skip_validation'']"

definition init_params :: "string list" where
  "init_params = [''dataset'', ''data_preprocessors'', ''batch_size'', ''shuffle'',
     ''initial_epoch'', ''augmentors'', ''transformers'', ''skip_validation'', ''limit'',
     ''use_cache'', ''log_level'']"

text \<open>
  The arguments of the constructor, for a dataset given as a list of rows (the form
  every other method of the class works on).
\<close>

record init_args =
  arg_dataset :: "descriptor list"
  arg_data_preprocessors :: "stage_fn list option"
  arg_batch_size :: int
  arg_shuffle :: bool
  arg_initial_epoch :: int
  arg_augmentors :: "stage list option"
  arg_transformers :: "stage list option"
  arg_skip_validation :: bool
  arg_limit :: "int option"
  arg_use_cache :: bool

text \<open>
  \<^verbatim>\<open>self.validate(dataset, skip_validation, limit)\<close> passes three positional arguments.
  A list given to \<^verbatim>\<open>validate\<close> comes back as a list.
\<close>

definition init_validate :: "(string \<Rightarrow> bool) \<Rightarrow> descriptor list \<Rightarrow> bool \<Rightarrow> error + descriptor list" where
  "init_validate path_exists rows skip =
     (case bind_positional validate_params 3 of
        Inl e \<Rightarrow> Inl e
      | Inr u \<Rightarrow>
          (case validate path_exists (RowList rows) skip of
             Inl e \<Rightarrow> Inl e
           | Inr (Some (RowList validated)) \<Rightarrow> Inr validated
           | Inr other \<Rightarrow> Inl TypeError))"

definition init :: "(string \<Rightarrow> bool) \<Rightarrow> init_args \<Rightarrow> error + provider" where
  "init path_exists a =
     (let p0 = \<lparr>dataset = arg_dataset a,
                data_preprocessors = (case arg_data_preprocessors a of None \<Rightarrow> [] | Some fs \<Rightarrow> fs),
                batch_size = arg_batch_size a,
                shuffle = arg_shuffle a,
                epoch = arg_initial_epoch a,
                augmentors = Some (case arg_augmentors a of None \<Rightarrow> [] | Some xs \<Rightarrow> xs),
                transformers = Some (case arg_transformers a of None \<Rightarrow> [] | Some xs \<Rightarrow> xs),
                skip_validation = arg_skip_validation a,
                limit = arg_limit a,
                use_cache = arg_use_cache a,
                step = 0,
                cache = [],
                on_epoch_end_remove = [],
                logger = []\<rparr>
      in case (if \<not> arg_skip_validation a
               then (case init_validate path_exists (arg_dataset a) (arg_skip_validation a) of
                       Inl e \<Rightarrow> Inl e
                     | Inr validated \<Rightarrow> Inr (p0\<lparr>dataset := validated\<rparr>))
               else Inr (p0\<lparr>logger := logger p0 @ [InfoSkippingValidation]\<rparr>)) of
           Inl e \<Rightarrow> Inl e
         | Inr p1 \<Rightarrow>
             (case arg_limit a of
                None \<Rightarrow> Inr p1
              | Some l \<Rightarrow>
                  if l = 0 then Inr p1
                  else Inr (p1\<lparr>logger := logger p1 @ [InfoLimiting l],
                               dataset := slice_to (dataset p1) l\<rparr>)))"

subsection \<open>The pooled provider's \<^verbatim>\<open>__init__\<close> (\<^verbatim>\<open>mltu/torch/dataProvider.py\<close>)\<close>

text \<open>
  The subclass adds \<^verbatim>\<open>batch_postprocessors\<close>, \<^verbatim>\<open>workers\<close> and \<^verbatim>\<open>use_multiprocessing\<close>. Its
  constructor calls the base constructor with keyword arguments only, among them
  \<^verbatim>\<open>batch_postprocessors\<close>, then stores the two other attributes.
\<close>

type_synonym batch_fn = "val list \<times> val list \<Rightarrow> heap \<Rightarrow> (error + val list \<times> val list) \<times> heap"

record torch_args =
  base_args :: init_args
  arg_batch_postprocessors :: "batch_fn list option"
  arg_workers :: int
  arg_use_multiprocessing :: bool

record torch_provider =
  base :: provider
  workers :: int
  use_multiprocessing :: bool

definition super_init_keywords :: "string list" where
  "super_init_keywords = [''dataset'', ''data_preprocessors'', ''batch_size'', ''shuffle'',
     ''initial_epoch'', ''augmentors'', ''transformers'', ''batch_postprocessors'',
     ''skip_validation'', ''limit'', ''use_cache'']"

definition torch_init :: "(string \<Rightarrow> bool) \<Rightarrow> torch_args \<Rightarrow> error + torch_provider" where
  "torch_init path_exists a =
     (case bind_keywords init_params super_init_keywords of
        Inl e \<Rightarrow> Inl e
      | Inr u \<Rightarrow>
          (case init path_exists (base_args a) of
             Inl e \<Rightarrow> Inl e
           | Inr p \<Rightarrow> Inr \<lparr>base = p, workers = arg_workers a,
                           use_multiprocessing = arg_use_multiprocessing a\<rparr>))"

subsection \<open>\<^verbatim>\<open>split\<close>\<close>

text \<open>
  \<^verbatim>\<open>int(len(self._dataset) * split)\<close>: the length is converted to a double, multiplied
  by the ratio (a double, given by its rational value) with one rounding, and truncated
  towards zero. A length beyond the range of doubles, or an infinite product, raises
  \<^verbatim>\<open>OverflowError\<close>.
\<close>

definition round_rat :: "rat \<Rightarrow> rat" where
  "round_rat q =
     (if q = 0 then 0
      else let (n, d) = quotient_of \<bar>q\<bar>; r = round_quotient (nat n) (nat d)
           in if q < 0 then - r else r)"

definition py_int_mul_float :: "int \<Rightarrow> rat \<Rightarrow> error + int" where
  "py_int_mul_float n x =
     (let xn = round_rat (of_int n)
      in if pow2 1024 \<le> \<bar>xn\<bar> then Inl OverflowError
         else let y = round_rat (xn * x)
              in if pow2 1024 \<le> \<bar>y\<bar> then Inl OverflowError
                 else Inr (if 0 \<le> y then \<lfloor>y\<rfloor> else \<lceil>y\<rceil>))"

text \<open>
  \<^verbatim>\<open>copy.deepcopy(self)\<close> copies every object the provider holds, with one memo for the
  whole provider. In the model those objects are the cached pairs; the other attributes
  are immutable values and stage objects, which have no state here.
\<close>

fun deepcopy_cache ::
  "(addr \<times> addr) list \<Rightarrow> (string \<times> (val \<times> val)) list \<Rightarrow> heap
    \<Rightarrow> (string \<times> (val \<times> val)) list \<times> (addr \<times> addr) list \<times> heap" where
  "deepcopy_cache memo [] h = ([], memo, h)"
| "deepcopy_cache memo ((k, (d, a)) # rest) h =
     (let (d', memo1, h1) = deepcopy_memo memo d h;
          (a', memo2, h2) = deepcopy_memo memo1 a h1;
          (rest', memo3, h3) = deepcopy_cache memo2 rest h2
      in ((k, (d', a')) # rest', memo3, h3))"

definition deepcopy_provider :: "provider \<Rightarrow> heap \<Rightarrow> provider \<times> heap" where
  "deepcopy_provider p h =
     (let (c, memo, h') = deepcopy_cache [] (cache p) h in (p\<lparr>cache := c\<rparr>, h'))"

text \<open>
  The result is the pair of new providers or the error raised; the provider itself
  (its dataset shuffled in place) and the store come with it.
\<close>

definition split ::
  "(descriptor list \<Rightarrow> descriptor list) \<Rightarrow> provider \<Rightarrow> heap \<Rightarrow> rat \<Rightarrow> bool
    \<Rightarrow> (error + provider \<times> provider) \<times> provider \<times> heap" where
  "split rng p h ratio shuffle_arg =
     (let p1 = (if shuffle_arg then p\<lparr>dataset := rng (dataset p)\<rparr> else p);
          (train_data_provider, h1) = deepcopy_provider p1 h;
          (val_data_provider, h2) = deepcopy_provider p1 h1
      in case py_int_mul_float (int (length (dataset p1))) ratio of
           Inl e \<Rightarrow> (Inl e, p1, h2)
         | Inr k \<Rightarrow>
             (Inr (train_data_provider\<lparr>dataset := slice_to (dataset p1) k\<rparr>,
                   val_data_provider\<lparr>dataset := slice_from (dataset p1) k\<rparr>),
              p1, h2))"

subsection \<open>\<^verbatim>\<open>process_data\<close>\<close>

text \<open>A \<^verbatim>\<open>for\<close> loop over callables, each fed the result of the one before.\<close>

fun run_stages :: "stage_fn list \<Rightarrow> val \<times> val \<Rightarrow> heap \<Rightarrow> (error + val \<times> val) \<times> heap" where
  "run_stages [] da h = (Inr da, h)"
| "run_stages (f # fs) da h =
     (case f da h of
        (Inl e, h') \<Rightarrow> (Inl e, h')
      | (Inr da', h') \<Rightarrow> run_stages fs da' h')"

text \<open>
  \<^verbatim>\<open>for objects in [self._augmentors, self._transformers]: for object in objects\<close>;
  iterating over \<^verbatim>\<open>None\<close> raises \<^verbatim>\<open>TypeError\<close>.
\<close>

fun run_objects :: "stage list option list \<Rightarrow> val \<times> val \<Rightarrow> heap \<Rightarrow> (error + val \<times> val) \<times> heap" where
  "run_objects [] da h = (Inr da, h)"
| "run_objects (None # rest) da h = (Inl TypeError, h)"
| "run_objects (Some objects # rest) da h =
     (case run_stages (map call_stage objects) da h of
        (Inl e, h') \<Rightarrow> (Inl e, h')
      | (Inr da', h') \<Rightarrow> run_objects rest da' h')"

definition is_ndarray :: "heap \<Rightarrow> val \<Rightarrow> bool" where
  "is_ndarray h v =
     (case v of
        Ref a \<Rightarrow> (case cells h a of (NdArray, xs) \<Rightarrow> True | _ \<Rightarrow> False)
      | _ \<Rightarrow> False)"

text \<open>
  \<^verbatim>\<open>x.numpy()\<close>: a tensor gives a new array with its elements; no other value has the
  method.
\<close>

definition numpy_method :: "val \<Rightarrow> heap \<Rightarrow> (error + val) \<times> heap" where
  "numpy_method v h =
     (case v of
        Ref a \<Rightarrow>
          (case cells h a of
             (Tensor, xs) \<Rightarrow> (let (b, h') = alloc (NdArray, xs) h in (Inr (Ref b), h'))
           | _ \<Rightarrow> (Inl AttributeError, h))
      | _ \<Rightarrow> (Inl AttributeError, h))"

text \<open>\<^verbatim>\<open>isinstance(annotation, (np.ndarray, int, float, str, np.uint8, float))\<close>\<close>

definition annotation_is_plain :: "heap \<Rightarrow> val \<Rightarrow> bool" where
  "annotation_is_plain h v = (is_ndarray h v \<or> (case v of Scalar s \<Rightarrow> True | _ \<Rightarrow> False))"

text \<open>
  Lines 216 to 229: the pair that goes on to augmentation. \<open>Inr None\<close> is the early
  \<^verbatim>\<open>return None, None\<close>. A key is in the cache dictionary when the association list
  binds it, so \<^verbatim>\<open>self._use_cache and batch_data[0] in self._cache\<close> holds when the lookup
  under \<open>use_cache\<close> finds an entry.
\<close>

definition load_sample ::
  "provider \<Rightarrow> heap \<Rightarrow> descriptor \<Rightarrow> (error + (val \<times> val) option) \<times> provider \<times> heap" where
  "load_sample p h batch_data =
     (case (if use_cache p then map_of (cache p) (fst batch_data) else None) of
        Some entry \<Rightarrow> (let (da, h1) = deepcopy_pair entry h in (Inr (Some da), p, h1))
      | None \<Rightarrow>
          (case run_stages (data_preprocessors p)
                  (Scalar (PyStr (fst batch_data)), Scalar (snd batch_data)) h of
             (Inl e, h1) \<Rightarrow> (Inl e, p, h1)
           | (Inr (data, annotation), h1) \<Rightarrow>
               if data = PyNone \<or> annotation = PyNone then
                 (Inr None,
                  p\<lparr>logger := logger p @ [WarnMarkedForRemoval],
                    on_epoch_end_remove := on_epoch_end_remove p @ [batch_data]\<rparr>,
                  h1)
               else if use_cache p \<and> map_of (cache p) (fst batch_data) = None then
                 (let (d', h2) = deepcopy data h1;
                      (a', h3) = deepcopy annotation h2
                  in (Inr (Some (data, annotation)),
                      p\<lparr>cache := cache p @ [(fst batch_data, (d', a'))]\<rparr>, h3))
               else (Inr (Some (data, annotation)), p, h1)))"

text \<open>Lines 231 to 245: augmentors, transformers, conversion to NumPy arrays.\<close>

definition augment_and_convert :: "provider \<Rightarrow> val \<times> val \<Rightarrow> heap \<Rightarrow> (error + val \<times> val) \<times> heap" where
  "augment_and_convert p da h =
     (case run_objects [augmentors p, transformers p] da h of
        (Inl e, h1) \<Rightarrow> (Inl e, h1)
      | (Inr (data, annotation), h1) \<Rightarrow>
          (case (if \<not> is_ndarray h1 data then numpy_method data h1 else (Inr data, h1)) of
             (Inl e, h2) \<Rightarrow> (Inl e, h2)
           | (Inr data', h2) \<Rightarrow>
               (case (if \<not> annotation_is_plain h2 annotation then numpy_method annotation h2
                      else (Inr annotation, h2)) of
                  (Inl e, h3) \<Rightarrow> (Inl e, h3)
                | (Inr annotation', h3) \<Rightarrow> (Inr (data', annotation'), h3))))"

definition process_data ::
  "provider \<Rightarrow> heap \<Rightarrow> descriptor \<Rightarrow> (error + val \<times> val) \<times> provider \<times> heap" where
  "process_data p h batch_data =
     (case load_sample p h batch_data of
        (Inl e, p1, h1) \<Rightarrow> (Inl e, p1, h1)
      | (Inr None, p1, h1) \<Rightarrow> (Inr (PyNone, PyNone), p1, h1)
      | (Inr (Some da), p1, h1) \<Rightarrow>
          (case augment_and_convert p1 da h1 of (r, h2) \<Rightarrow> (r, p1, h2)))"

subsection \<open>\<^verbatim>\<open>__getitem__\<close>\<close>

text \<open>The loop over the descriptors of the batch, with the two lists it appends to.\<close>

fun process_batch ::
  "provider \<Rightarrow> heap \<Rightarrow> descriptor list \<Rightarrow> val list \<Rightarrow> val list
    \<Rightarrow> (error + val list \<times> val list) \<times> provider \<times> heap" where
  "process_batch p h [] batch_data batch_annotations =
     (Inr (batch_data, batch_annotations), p, h)"
| "process_batch p h (batch # rest) batch_data batch_annotations =
     (case process_data p h batch of
        (Inl e, p1, h1) \<Rightarrow> (Inl e, p1, h1)
      | (Inr (data, annotation), p1, h1) \<Rightarrow>
          if data = PyNone \<or> annotation = PyNone then
            process_batch (p1\<lparr>logger := logger p1 @ [WarnSkipping]\<rparr>) h1 rest
              batch_data batch_annotations
          else process_batch p1 h1 rest (batch_data @ [data]) (batch_annotations @ [annotation]))"

text \<open>
  \<^verbatim>\<open>np.array(xs)\<close> builds a new array from the elements of the listed values (shapes
  are not modelled).
\<close>

fun elements :: "heap \<Rightarrow> val \<Rightarrow> scalar list" where
  "elements h (Ref a) = snd (cells h a)"
| "elements h (Scalar s) = [s]"
| "elements h PyNone = []"

definition np_array :: "val list \<Rightarrow> heap \<Rightarrow> val \<times> heap" where
  "np_array vs h = (let (a, h') = alloc (NdArray, concat (map (elements h) vs)) h in (Ref a, h'))"

definition getitem :: "provider \<Rightarrow> heap \<Rightarrow> int \<Rightarrow> (error + val \<times> val) \<times> provider \<times> heap" where
  "getitem p h index =
     (case get_batch_annotations p index of
        (Inl e, p1) \<Rightarrow> (Inl e, p1, h)
      | (Inr dataset_batch, p1) \<Rightarrow>
          (case process_batch p1 h dataset_batch [] [] of
             (Inl e, p2, h2) \<Rightarrow> (Inl e, p2, h2)
           | (Inr (batch_data, batch_annotations), p2, h2) \<Rightarrow>
               (let (x, h3) = np_array batch_data h2;
                    (y, h4) = np_array batch_annotations h3
                in (Inr (x, y), p2, h4))))"

section \<open>Objects, copies and well-behaved stages\<close>

text \<open>
  What a value denotes in a store: itself when it is \<^verbatim>\<open>None\<close> or a scalar, the object at
  its address when it is a reference.
\<close>

datatype content = NoContent | ScalarContent scalar | ObjectContent cell

fun content_of :: "heap \<Rightarrow> val \<Rightarrow> content" where
  "content_of h PyNone = NoContent"
| "content_of h (Scalar s) = ScalarContent s"
| "content_of h (Ref a) = ObjectContent (cells h a)"

fun pair_refs :: "val \<times> val \<Rightarrow> addr set" where
  "pair_refs (d, a) = val_refs d \<union> val_refs a"

definition cache_refs :: "(string \<times> (val \<times> val)) list \<Rightarrow> addr set" where
  "cache_refs c = (\<Union>e \<in> set c. pair_refs (snd e))"

text \<open>An in-place assignment to the object at an address.\<close>

definition assign :: "heap \<Rightarrow> addr \<Rightarrow> cell \<Rightarrow> heap" where
  "assign h x c = h\<lparr>cells := (cells h)(x := c)\<rparr>"

text \<open>
  A stage is well-behaved when it reaches objects only through its arguments: it may
  allocate, it writes to no allocated object other than its arguments, and the values
  it returns are its arguments or objects it allocated.
\<close>

definition stage_ok :: "stage_fn \<Rightarrow> bool" where
  "stage_ok f =
     (\<forall>da h r h'. f da h = (r, h') \<longrightarrow>
        nxt h \<le> nxt h'
        \<and> (\<forall>x. x < nxt h \<and> x \<notin> pair_refs da \<longrightarrow> cells h' x = cells h x)
        \<and> (\<forall>da'. r = Inr da' \<longrightarrow> pair_refs da' \<subseteq> pair_refs da \<union> {nxt h ..< nxt h'}))"

definition stages_ok :: "provider \<Rightarrow> bool" where
  "stages_ok p =
     ((\<forall>f \<in> set (data_preprocessors p). stage_ok f)
      \<and> (\<forall>objects. augmentors p = Some objects \<longrightarrow> (\<forall>s \<in> set objects. stage_ok (call_stage s)))
      \<and> (\<forall>objects. transformers p = Some objects \<longrightarrow> (\<forall>s \<in> set objects. stage_ok (call_stage s))))"

text \<open>The cached objects are allocated objects.\<close>

definition cache_allocated :: "provider \<Rightarrow> heap \<Rightarrow> bool" where
  "cache_allocated p h = (cache_refs (cache p) \<subseteq> {..< nxt h})"

text \<open>
  Every entry of the cache of \<open>p\<close> in store \<open>h\<close> is still the entry of its key in the
  cache of \<open>p'\<close>, and denotes in store \<open>h'\<close> what it denoted in \<open>h\<close>.
\<close>

definition cache_intact :: "provider \<Rightarrow> heap \<Rightarrow> provider \<Rightarrow> heap \<Rightarrow> bool" where
  "cache_intact p h p' h' =
     (\<forall>k d a. map_of (cache p) k = Some (d, a) \<longrightarrow>
        map_of (cache p') k = Some (d, a)
        \<and> content_of h' d = content_of h d \<and> content_of h' a = content_of h a)"

text \<open>The objects a list of values refers to.\<close>

definition list_refs :: "val list \<Rightarrow> addr set" where
  "list_refs vs = (\<Union>v \<in> set vs. val_refs v)"

definition memo_ok :: "addr \<Rightarrow> (addr \<times> addr) list \<Rightarrow> heap \<Rightarrow> bool" where
  "memo_ok n0 memo h =
     (\<forall>a b. (a, b) \<in> set memo \<longrightarrow> a < n0 \<and> n0 \<le> b \<and> b < nxt h \<and> cells h b = cells h a)"

definition copy_of :: "heap \<Rightarrow> heap \<Rightarrow> string \<times> (val \<times> val) \<Rightarrow> string \<times> (val \<times> val) \<Rightarrow> bool" where
  "copy_of h h' e e' =
     (fst e' = fst e
      \<and> content_of h' (fst (snd e')) = content_of h (fst (snd e))
      \<and> content_of h' (snd (snd e')) = content_of h (snd (snd e)))"

section \<open>Example providers\<close>

definition rows7 :: "descriptor list" where
  "rows7 = [(''a.bin'', PyStr ''cat''), (''b.bin'', PyStr ''dog''), (''c.bin'', PyStr ''fox''),
            (''d.bin'', PyStr ''owl''), (''e.bin'', PyStr ''bat''), (''f.bin'', PyStr ''eel''),
            (''g.bin'', PyStr ''ant'')]"

definition provider7 :: provider where
  "provider7 = \<lparr>dataset = rows7, data_preprocessors = [], batch_size = 3, shuffle = False,
     epoch = 1, augmentors = Some [], transformers = Some [], skip_validation = True,
     limit = None, use_cache = False, step = 0, cache = [], on_epoch_end_remove = [],
     logger = [InfoSkippingValidation]\<rparr>"

definition rows3 :: "descriptor list" where
  "rows3 = [(''a.bin'', PyStr ''cat''), (''b.bin'', PyStr ''dog''), (''missing.bin'', PyStr ''fox'')]"

definition disk3 :: "string \<Rightarrow> bool" where
  "disk3 path = (path = ''a.bin'' \<or> path = ''b.bin'')"

definition validating_args :: init_args where
  "validating_args = \<lparr>arg_dataset = rows3, arg_data_preprocessors = None, arg_batch_size = 2,
     arg_shuffle = True, arg_initial_epoch = 1, arg_augmentors = None, arg_transformers = None,
     arg_skip_validation = False, arg_limit = None, arg_use_cache = False\<rparr>"



definition empty_heap :: heap where
  "empty_heap = \<lparr>cells = (\<lambda>a. (OtherObject, [])), nxt = 0\<rparr>"

definition failing_reader :: stage_fn where
  "failing_reader da h = (Inr (PyNone, PyNone), h)"

definition strict_stage :: stage_fn where
  "strict_stage da h = (if fst da = PyNone then (Inl AttributeError, h) else (Inr da, h))"

definition default_stage :: stage_fn where
  "default_stage da h =
     (if fst da = PyNone
      then (let (a, h') = alloc (NdArray, []) h in (Inr (Ref a, Scalar (PyStr ''unknown'')), h'))
      else (Inr da, h))"

definition reading_provider :: "stage_fn list \<Rightarrow> provider" where
  "reading_provider fs = \<lparr>dataset = rows3, data_preprocessors = fs, batch_size = 2, shuffle = False,
     epoch = 1, augmentors = Some [], transformers = Some [], skip_validation = True,
     limit = None, use_cache = False, step = 0, cache = [], on_epoch_end_remove = [],
     logger = [InfoSkippingValidation]\<rparr>"

fun flip :: "scalar \<Rightarrow> scalar" where
  "flip (PyInt i) = PyInt (- i)"
| "flip s = s"

definition array_reader :: stage_fn where
  "array_reader da h =
     (let (a, h') = alloc (NdArray, [PyInt 1, PyInt 2, PyInt 3]) h in (Inr (Ref a, snd da), h'))"

definition flip_in_place :: stage_fn where
  "flip_in_place da h =
     (case fst da of
        Ref a \<Rightarrow> (Inr da, assign h a (fst (cells h a), map flip (snd (cells h a))))
      | _ \<Rightarrow> (Inr da, h))"

definition caching_provider :: provider where
  "caching_provider = \<lparr>dataset = [(''a.bin'', PyStr ''cat'')], data_preprocessors = [array_reader],
     batch_size = 1, shuffle = False, epoch = 1, augmentors = Some [AugmentorObj flip_in_place],
     transformers = Some [], skip_validation = True, limit = None, use_cache = True, step = 0,
     cache = [], on_epoch_end_remove = [], logger = [InfoSkippingValidation]\<rparr>"

definition rows_twice :: "descriptor list" where
  "rows_twice = [(''a.bin'', PyStr ''cat''), (''a.bin'', PyStr ''cat'')]"

definition rows2 :: "descriptor list" where
  "rows2 = [(''a.bin'', PyStr ''cat''), (''b.bin'', PyStr ''dog'')]"

definition one_array_heap :: heap where
  "one_array_heap = snd (alloc (NdArray, [PyInt 1, PyInt 2, PyInt 3]) empty_heap)"

definition splitting_provider :: "descriptor list \<Rightarrow> provider" where
  "splitting_provider rows = \<lparr>dataset = rows, data_preprocessors = [], batch_size = 2,
     shuffle = True, epoch = 1, augmentors = Some [], transformers = Some [],
     skip_validation = True, limit = None, use_cache = True, step = 0,
     cache = [(''a.bin'', (Ref 0, Scalar (PyStr ''cat'')))], on_epoch_end_remove = [],
     logger = [InfoSkippingValidation]\<rparr>"

definition registered_lists :: registrations where
  "registered_lists =
     \<lparr>items = (\<lambda>a. [])
        (0 := [AugmentorObj failing_reader, AugmentorObj strict_stage],
         1 := [TransformerObj strict_stage],
         2 := [AugmentorObj strict_stage, OtherCallable failing_reader, TransformerObj failing_reader]),
      next_list = 3, own_augmentors = Some 0, own_transformers = Some 1, logged = []\<rparr>"

section \<open>Verified properties\<close>

subsection \<open>Number of batches\<close>

lemma pow2_powi: "pow2 k = 2 powi k"
  by (simp add: pow2_def power_int_def inverse_eq_divide power_one_over)

lemma pow2_pos: "0 < pow2 k"
  by (simp add: pow2_powi)

lemma pow2_add: "pow2 (j + k) = pow2 j * pow2 k"
  by (simp add: pow2_powi power_int_add)

lemma pow2_nat: "pow2 (int n) = 2 ^ n"
  by (simp add: pow2_def)

lemma pow2_mono: "j \<le> k \<Longrightarrow> pow2 j \<le> pow2 k"
  by (simp add: pow2_powi power_int_increasing)

lemma ilog2_bounds: "0 < n \<Longrightarrow> 2 ^ ilog2 n \<le> n \<and> n < 2 ^ Suc (ilog2 n)"
proof (induction n rule: ilog2.induct)
  case (1 n)
  show ?case
  proof (cases "n < 2")
    case True
    with "1.prems" show ?thesis by (simp add: ilog2.simps [of n])
  next
    case False
    then have "0 < n div 2" by simp
    with "1.IH" False have ih: "2 ^ ilog2 (n div 2) \<le> n div 2" "n div 2 < 2 ^ Suc (ilog2 (n div 2))"
      by simp_all
    have e: "ilog2 n = Suc (ilog2 (n div 2))" using False by (simp add: ilog2.simps [of n])
    have d: "2 * (n div 2) \<le> n" "n < 2 * (n div 2) + 2" by simp_all
    have "2 * 2 ^ ilog2 (n div 2) \<le> n" using ih(1) d(1) by linarith
    moreover have "n < 2 * (2 * 2 ^ ilog2 (n div 2))" using ih(2) d(2) by simp
    ultimately show ?thesis unfolding e by simp
  qed
qed

lemma quot_exponent_bounds:
  assumes a: "0 < a" and b: "0 < b"
  shows "pow2 (quot_exponent a b) \<le> of_nat a / of_nat b"
    and "of_nat a / of_nat b < pow2 (quot_exponent a b + 1)"
proof -
  let ?q = "of_nat a / of_nat b :: rat"
  let ?e0 = "int (ilog2 a) - int (ilog2 b)"
  have An: "2 ^ ilog2 a \<le> a" "a < 2 ^ Suc (ilog2 a)" using ilog2_bounds [OF a] by simp_all
  have Bn: "2 ^ ilog2 b \<le> b" "b < 2 ^ Suc (ilog2 b)" using ilog2_bounds [OF b] by simp_all
  have "(of_nat (2 ^ ilog2 a) :: rat) \<le> of_nat a" "(of_nat a :: rat) < of_nat (2 ^ Suc (ilog2 a))"
    using An by (simp_all only: of_nat_le_iff of_nat_less_iff)
  then have A: "(2::rat) ^ ilog2 a \<le> of_nat a" "(of_nat a :: rat) < 2 ^ Suc (ilog2 a)"
    by simp_all
  have "(of_nat (2 ^ ilog2 b) :: rat) \<le> of_nat b" "(of_nat b :: rat) < of_nat (2 ^ Suc (ilog2 b))"
    using Bn by (simp_all only: of_nat_le_iff of_nat_less_iff)
  then have B: "(2::rat) ^ ilog2 b \<le> of_nat b" "(of_nat b :: rat) < 2 ^ Suc (ilog2 b)"
    by simp_all
  have bpos: "(0::rat) < of_nat b" using b by simp
  have up: "?q < pow2 (?e0 + 1)"
  proof -
    have "?q < 2 ^ Suc (ilog2 a) / 2 ^ ilog2 b"
      using A(2) B(1) by (intro frac_less) simp_all
    also have "\<dots> = pow2 (?e0 + 1)"
      by (simp add: pow2_powi power_int_add power_int_diff)
    finally show ?thesis .
  qed
  have lo: "pow2 (?e0 - 1) \<le> ?q"
  proof -
    have "(2::rat) ^ ilog2 a / 2 ^ Suc (ilog2 b) \<le> ?q"
      using A(1) B(2) bpos by (intro frac_le) simp_all
    moreover have "(2::rat) ^ ilog2 a / 2 ^ Suc (ilog2 b) = pow2 (?e0 - 1)"
      by (simp add: pow2_powi power_int_add power_int_diff)
    ultimately show ?thesis by simp
  qed
  show "pow2 (quot_exponent a b) \<le> ?q"
    using lo by (simp add: quot_exponent_def Let_def)
  show "?q < pow2 (quot_exponent a b + 1)"
    using up by (auto simp add: quot_exponent_def Let_def not_le)
qed

lemma round_half_even_error: "\<bar>of_int (round_half_even x) - x\<bar> \<le> 1 / 2"
proof -
  have "of_int \<lfloor>x\<rfloor> \<le> x" "x < of_int \<lfloor>x\<rfloor> + 1" by linarith+
  then show ?thesis by (auto simp add: round_half_even_def Let_def)
qed

lemma round_half_even_of_int: "round_half_even (of_int k) = k"
  by (simp add: round_half_even_def)


lemma pow2_less_cancel: "pow2 j < pow2 k \<Longrightarrow> j < k"
  using pow2_mono [of k j] by (cases "j < k") simp_all

lemma round_quotient_error:
  assumes a: "0 < a" and b: "0 < b" and e: "- 1022 \<le> quot_exponent a b"
  shows "\<bar>round_quotient a b - of_nat a / of_nat b\<bar> \<le> (of_nat a / of_nat b) * pow2 (- 53)"
proof -
  let ?q = "of_nat a / of_nat b :: rat"
  let ?e = "quot_exponent a b"
  let ?ex = "?e - 52"
  let ?x = "?q / pow2 ?ex"
  have mx: "max ?ex (- 1074) = ?ex" using e by simp
  have r: "round_quotient a b = of_int (round_half_even ?x) * pow2 ?ex"
    by (simp add: round_quotient_def Let_def mx)
  have q: "?q = ?x * pow2 ?ex" using pow2_pos [of ?ex] by simp
  have "round_quotient a b - ?q = (of_int (round_half_even ?x) - ?x) * pow2 ?ex"
    unfolding r by (subst q) (simp only: left_diff_distrib)
  then have "\<bar>round_quotient a b - ?q\<bar> = \<bar>of_int (round_half_even ?x) - ?x\<bar> * pow2 ?ex"
    using pow2_pos [of ?ex] by (simp add: abs_mult)
  also have "\<dots> \<le> (1 / 2) * pow2 ?ex"
    using round_half_even_error [of ?x] pow2_pos [of ?ex] by (intro mult_right_mono) simp_all
  also have "(1 / 2) * pow2 ?ex = pow2 ?e * pow2 (- 53)"
    by (simp add: pow2_powi power_int_diff power_int_minus)
  also have "\<dots> \<le> ?q * pow2 (- 53)"
    using quot_exponent_bounds(1) [OF a b] pow2_pos [of "- 53"] by (intro mult_right_mono) simp_all
  finally show ?thesis .
qed

lemma round_quotient_exact:
  assumes k: "0 < k" and b: "0 < b" and small: "k < 2 ^ 53"
  shows "round_quotient (k * b) b = of_nat k"
proof -
  let ?e = "quot_exponent (k * b) b"
  have q: "(of_nat (k * b) / of_nat b :: rat) = of_nat k" using b by simp
  have kb: "0 < k * b" using k b by simp
  have lo: "pow2 ?e \<le> of_nat k" and hi: "of_nat k < pow2 (?e + 1)"
    using quot_exponent_bounds [OF kb b] by (simp_all only: q)
  have k1: "(1::rat) \<le> of_nat k" using k by simp
  have "pow2 0 < pow2 (?e + 1)" using k1 hi by (simp add: pow2_def)
  then have e0: "0 \<le> ?e" using pow2_less_cancel [of 0 "?e + 1"] by simp
  have "(of_nat k :: rat) < of_nat (2 ^ 53)" using small by (simp only: of_nat_less_iff)
  then have "pow2 ?e < pow2 53" using lo by (simp add: pow2_def)
  then have e52: "?e \<le> 52" using pow2_less_cancel [of ?e 53] by simp
  define n where "n = nat (52 - ?e)"
  have ex: "max (?e - 52) (- 1074) = - int n" using e0 e52 by (simp add: n_def)
  have p: "pow2 (- int n) = 1 / 2 ^ n" by (simp add: pow2_def)
  have x: "(of_nat k :: rat) / pow2 (- int n) = of_int (int k * 2 ^ n)" by (simp add: p)
  show ?thesis
    by (simp only: round_quotient_def Let_def q ex x round_half_even_of_int) (simp add: p)
qed


lemma true_div_ceiling:
  assumes a: "0 < a" and b: "0 < b" and asmall: "a < 2 ^ 53" and bsmall: "b \<le> 2 ^ 1022"
  shows "round_quotient a b < pow2 1024"
    and "\<lceil>round_quotient a b\<rceil> = \<lceil>of_nat a / of_nat b :: rat\<rceil>"
proof -
  let ?q = "of_nat a / of_nat b :: rat"
  let ?r = "round_quotient a b"
  have bpos: "(0::rat) < of_nat b" using b by simp
  have big: "(2::rat) ^ 53 < pow2 1024" by (simp add: pow2_def)
  have ar: "(of_nat a :: rat) < 2 ^ 53"
  proof -
    have "(of_nat a :: rat) < of_nat (2 ^ 53)" using asmall by (simp only: of_nat_less_iff)
    then show ?thesis by simp
  qed
  have both: "?r < pow2 1024 \<and> \<lceil>?r\<rceil> = \<lceil>?q\<rceil>"
  proof (cases "b dvd a")
    case True
    then obtain k where k: "a = k * b" by (auto simp add: dvd_def mult.commute)
    have kpos: "0 < k" using a k by (cases k) simp_all
    have "k \<le> a" using k b by simp
    then have ksmall: "k < 2 ^ 53" using asmall by simp
    have r: "?r = of_nat k" unfolding k by (rule round_quotient_exact [OF kpos b ksmall])
    have q: "?q = of_nat k" using b by (simp add: k)
    have "(of_nat k :: rat) < of_nat (2 ^ 53)" using ksmall by (simp only: of_nat_less_iff)
    then have "(of_nat k :: rat) < pow2 1024" using big by simp
    then show ?thesis by (simp add: r q)
  next
    case False
    let ?m = "a div b"
    have md: "a = ?m * b + a mod b" by simp
    have m1: "1 \<le> a mod b" using False by (simp add: dvd_eq_mod_eq_0 Suc_le_eq)
    have m2: "a mod b + 1 \<le> b" using b by (simp add: Suc_le_eq)
    have qm: "?q = of_nat ?m + of_nat (a mod b) / of_nat b"
    proof -
      have "(of_nat a :: rat) = of_nat ?m * of_nat b + of_nat (a mod b)"
        by (metis md of_nat_add of_nat_mult)
      then show ?thesis using bpos by (simp add: field_simps)
    qed
    have f1: "1 / of_nat b \<le> (of_nat (a mod b) :: rat) / of_nat b"
      using m1 bpos by (intro divide_right_mono) simp_all
    have f2: "(of_nat (a mod b) :: rat) / of_nat b \<le> 1 - 1 / of_nat b"
    proof -
      have "(of_nat (a mod b) + 1 :: rat) \<le> of_nat b"
        using m2 by (metis of_nat_1 of_nat_add of_nat_le_iff)
      then have "(of_nat (a mod b) + 1 :: rat) / of_nat b \<le> of_nat b / of_nat b"
        using bpos by (intro divide_right_mono) simp_all
      then show ?thesis using bpos by (simp add: field_simps)
    qed
    have e: "- 1022 \<le> quot_exponent a b"
    proof -
      have "(of_nat b :: rat) \<le> of_nat (2 ^ 1022)" using bsmall by (simp only: of_nat_le_iff)
      then have "(of_nat b :: rat) \<le> 2 ^ 1022" by simp
      then have "1 / 2 ^ 1022 \<le> 1 / (of_nat b :: rat)"
        using bpos by (intro divide_left_mono) simp_all
      also have "\<dots> \<le> ?q" using a bpos by (intro divide_right_mono) simp_all
      also have "?q < pow2 (quot_exponent a b + 1)" by (rule quot_exponent_bounds(2) [OF a b])
      finally have "pow2 (- 1022) < pow2 (quot_exponent a b + 1)" by (simp add: pow2_def)
      from pow2_less_cancel [OF this] show ?thesis by simp
    qed
    have "\<bar>?r - ?q\<bar> \<le> ?q * pow2 (- 53)" by (rule round_quotient_error [OF a b e])
    also have "?q * pow2 (- 53) = (of_nat a / 2 ^ 53) / of_nat b" by (simp add: pow2_def)
    also have "\<dots> < 1 / of_nat b"
      using ar bpos by (intro divide_strict_right_mono) simp_all
    finally have err: "\<bar>?r - ?q\<bar> < 1 / of_nat b" .
    have lo: "of_nat ?m < ?r" using err f1 qm by linarith
    have hi: "?r < of_nat ?m + 1" using err f2 qm by linarith
    have ib: "(0::rat) < 1 / of_nat b" using bpos by simp
    have qlo: "of_nat ?m < ?q" using f1 qm ib by linarith
    have qhi: "?q < of_nat ?m + 1" using f2 qm ib by linarith
    have cr: "\<lceil>?r\<rceil> = int ?m + 1" using lo hi by (intro ceiling_unique) simp_all
    have cq: "\<lceil>?q\<rceil> = int ?m + 1" using qlo qhi by (intro ceiling_unique) simp_all
    have "?m \<le> a" by simp
    then have "(of_nat ?m :: rat) \<le> of_nat a" by (simp only: of_nat_le_iff)
    then have "?r < 2 ^ 53 + 1" using hi ar by linarith
    moreover have "(2 ^ 53 + 1 :: rat) < pow2 1024" by (simp add: pow2_def)
    ultimately show ?thesis using cr cq by simp
  qed
  show "?r < pow2 1024" using both by simp
  show "\<lceil>?r\<rceil> = \<lceil>?q\<rceil>" using both by simp
qed

lemma len_ceiling:
  assumes "0 < batch_size p" and "batch_size p \<le> 2 ^ 1022" and "length (dataset p) < 2 ^ 53"
  shows "len p = Inr \<lceil>of_nat (length (dataset p)) / of_int (batch_size p) :: rat\<rceil>"
proof (cases "length (dataset p) = 0")
  case True
  then show ?thesis using assms(1) by (simp add: len_def py_true_div_def)
next
  case False
  let ?a = "length (dataset p)"
  let ?b = "nat (batch_size p)"
  have a: "0 < ?a" using False by simp
  have b: "0 < ?b" using assms(1) by simp
  have bs: "?b \<le> 2 ^ 1022" using assms(2) by (simp add: nat_le_iff)
  have bi: "(of_int (batch_size p) :: rat) = of_nat ?b" using assms(1) by simp
  from true_div_ceiling [OF a b assms(3) bs]
  show ?thesis using assms(1) False
    by (simp add: len_def py_true_div_def Let_def bi not_le [symmetric] del: of_nat_nat)
qed

text \<open>
  C8. \<^verbatim>\<open>__len__\<close> reads the dataset as it is at the call and returns the ceiling of its
  size over the batch size, for a positive batch size; the quotient is a double, which
  is exact enough as long as the dataset has fewer than \<open>2 ^ 53\<close> rows and the batch size
  is at most \<open>2 ^ 1022\<close>.
\<close>

theorem len_is_ceiling:
  assumes "0 < batch_size p" and "batch_size p \<le> 2 ^ 1022" and "length (dataset p) < 2 ^ 53"
  shows "len p = Inr \<lceil>of_nat (length (dataset p)) / of_int (batch_size p) :: rat\<rceil>"
  using assms by (rule len_ceiling)


theorem len_is_ceiling_witness:
  "0 < batch_size provider7 \<and> batch_size provider7 \<le> 2 ^ 1022 \<and> length (dataset provider7) < 2 ^ 53
   \<and> len provider7 = Inr 3"
proof -
  have h: "0 < batch_size provider7" "batch_size provider7 \<le> 2 ^ 1022" "length (dataset provider7) < 2 ^ 53"
    by (simp_all add: provider7_def rows7_def)
  have "len provider7 = Inr \<lceil>of_nat (length (dataset provider7)) / of_int (batch_size provider7) :: rat\<rceil>"
    using h by (rule len_is_ceiling)
  also have "\<dots> = Inr 3"
  proof -
    have "\<lceil>7 / 3 :: rat\<rceil> = 3" by (intro ceiling_unique) simp_all
    then show ?thesis by (simp add: provider7_def rows7_def)
  qed
  finally show ?thesis using h by simp
qed

subsection \<open>Batch slices\<close>





subsection \<open>Registering stages\<close>

lemma augmentors_loop_rest_dropped:
  "\<forall>x \<in> set (drop i (items r arg)). \<not> is_Augmentor x \<Longrightarrow>
   augmentors_loop arg i r =
     Some (r\<lparr>logged := logged r @ map WarnNotAugmentor (drop i (items r arg))\<rparr>)"
proof (induction "length (items r arg) - i" arbitrary: i r)
  case 0
  then show ?case by (subst augmentors_loop.simps) simp
next
  case (Suc n)
  then have i: "i < length (items r arg)" by simp
  then have d: "drop i (items r arg) = items r arg ! i # drop (Suc i) (items r arg)"
    by (simp add: Cons_nth_drop_Suc)
  let ?r = "r\<lparr>logged := logged r @ [WarnNotAugmentor (items r arg ! i)]\<rparr>"
  have x: "\<not> is_Augmentor (items r arg ! i)" using Suc.prems d by simp
  have "augmentors_loop arg (Suc i) ?r =
      Some (?r\<lparr>logged := logged ?r @ map WarnNotAugmentor (drop (Suc i) (items ?r arg))\<rparr>)"
  proof (rule Suc.hyps(1))
    show "n = length (items ?r arg) - Suc i" using Suc.hyps(2) by simp
    show "\<forall>x \<in> set (drop (Suc i) (items ?r arg)). \<not> is_Augmentor x" using Suc.prems d by simp
  qed
  then show ?case using i x d by (subst augmentors_loop.simps) simp
qed

lemma augmentors_loop_other_list:
  "own_augmentors r = Some a \<Longrightarrow> arg \<noteq> a \<Longrightarrow>
   augmentors_loop arg i r =
     Some (r\<lparr>items := (items r)(a := items r a @ filter is_Augmentor (drop i (items r arg))),
            logged := logged r @
              map WarnNotAugmentor (filter (\<lambda>x. \<not> is_Augmentor x) (drop i (items r arg)))\<rparr>)"
proof (induction "length (items r arg) - i" arbitrary: i r)
  case 0
  then show ?case by (subst augmentors_loop.simps) simp
next
  case (Suc n)
  then have i: "i < length (items r arg)" by simp
  then have d: "drop i (items r arg) = items r arg ! i # drop (Suc i) (items r arg)"
    by (simp add: Cons_nth_drop_Suc)
  show ?case
  proof (cases "is_Augmentor (items r arg ! i)")
    case True
    let ?r = "r\<lparr>items := (items r)(a := items r a @ [items r arg ! i])\<rparr>"
    have "augmentors_loop arg (Suc i) ?r =
      Some (?r\<lparr>items := (items ?r)(a := items ?r a @ filter is_Augmentor (drop (Suc i) (items ?r arg))),
            logged := logged ?r @
              map WarnNotAugmentor (filter (\<lambda>x. \<not> is_Augmentor x) (drop (Suc i) (items ?r arg)))\<rparr>)"
    proof (rule Suc.hyps(1))
      show "n = length (items ?r arg) - Suc i" using Suc.hyps(2) Suc.prems(2) by simp
      show "own_augmentors ?r = Some a" using Suc.prems(1) by simp
      show "arg \<noteq> a" by (rule Suc.prems(2))
    qed
    then show ?thesis using i True d Suc.prems by (subst augmentors_loop.simps) simp
  next
    case False
    let ?r = "r\<lparr>logged := logged r @ [WarnNotAugmentor (items r arg ! i)]\<rparr>"
    have "augmentors_loop arg (Suc i) ?r =
      Some (?r\<lparr>items := (items ?r)(a := items ?r a @ filter is_Augmentor (drop (Suc i) (items ?r arg))),
            logged := logged ?r @
              map WarnNotAugmentor (filter (\<lambda>x. \<not> is_Augmentor x) (drop (Suc i) (items ?r arg)))\<rparr>)"
    proof (rule Suc.hyps(1))
      show "n = length (items ?r arg) - Suc i" using Suc.hyps(2) by simp
      show "own_augmentors ?r = Some a" using Suc.prems(1) by simp
      show "arg \<noteq> a" by (rule Suc.prems(2))
    qed
    then show ?thesis using i False d Suc.prems by (subst augmentors_loop.simps) simp
  qed
qed

lemma augmentors_loop_first_list:
  "own_augmentors r = None \<Longrightarrow> arg \<noteq> next_list r \<Longrightarrow>
   augmentors_loop arg i r =
     Some (if filter is_Augmentor (drop i (items r arg)) = []
       then r\<lparr>logged := logged r @ map WarnNotAugmentor (drop i (items r arg))\<rparr>
       else r\<lparr>items := (items r)(next_list r := filter is_Augmentor (drop i (items r arg))),
              next_list := next_list r + 1,
              own_augmentors := Some (next_list r),
              logged := logged r @
                map WarnNotAugmentor (filter (\<lambda>x. \<not> is_Augmentor x) (drop i (items r arg)))\<rparr>)"
proof (induction "length (items r arg) - i" arbitrary: i r)
  case 0
  then show ?case by (subst augmentors_loop.simps) simp
next
  case (Suc n)
  then have i: "i < length (items r arg)" by simp
  then have d: "drop i (items r arg) = items r arg ! i # drop (Suc i) (items r arg)"
    by (simp add: Cons_nth_drop_Suc)
  show ?case
  proof (cases "is_Augmentor (items r arg ! i)")
    case True
    let ?r = "r\<lparr>items := (items r)(next_list r := [items r arg ! i]),
                   next_list := next_list r + 1,
                   own_augmentors := Some (next_list r)\<rparr>"
    have "augmentors_loop arg (Suc i) ?r =
      Some (?r\<lparr>items := (items ?r)(next_list r := items ?r (next_list r) @ filter is_Augmentor (drop (Suc i) (items ?r arg))),
            logged := logged ?r @
              map WarnNotAugmentor (filter (\<lambda>x. \<not> is_Augmentor x) (drop (Suc i) (items ?r arg)))\<rparr>)"
      by (rule augmentors_loop_other_list) (simp_all add: Suc.prems(2))
    then show ?thesis using i True d Suc.prems by (subst augmentors_loop.simps) simp
  next
    case False
    let ?r = "r\<lparr>logged := logged r @ [WarnNotAugmentor (items r arg ! i)]\<rparr>"
    have "augmentors_loop arg (Suc i) ?r =
     Some (if filter is_Augmentor (drop (Suc i) (items ?r arg)) = []
       then ?r\<lparr>logged := logged ?r @ map WarnNotAugmentor (drop (Suc i) (items ?r arg))\<rparr>
       else ?r\<lparr>items := (items ?r)(next_list ?r := filter is_Augmentor (drop (Suc i) (items ?r arg))),
              next_list := next_list ?r + 1,
              own_augmentors := Some (next_list ?r),
              logged := logged ?r @
                map WarnNotAugmentor (filter (\<lambda>x. \<not> is_Augmentor x) (drop (Suc i) (items ?r arg)))\<rparr>)"
    proof (rule Suc.hyps(1))
      show "n = length (items ?r arg) - Suc i" using Suc.hyps(2) by simp
      show "own_augmentors ?r = None" using Suc.prems(1) by simp
      show "arg \<noteq> next_list ?r" using Suc.prems(2) by simp
    qed
    then show ?thesis using i False d Suc.prems by (subst augmentors_loop.simps) simp
  qed
qed

lemma augmentors_loop_own_list:
  assumes "augmentors_loop arg i r = Some y"
  shows "\<not> (own_augmentors r = Some arg
            \<and> (\<exists>j\<ge>i. j < length (items r arg) \<and> is_Augmentor (items r arg ! j)))"
  using assms
proof (induction arg i r y rule: augmentors_loop.raw_induct [rotated 1, consumes 1, case_names step])
  case (step loop arg i r y)
  show ?case
  proof
    assume inv: "own_augmentors r = Some arg
       \<and> (\<exists>j\<ge>i. j < length (items r arg) \<and> is_Augmentor (items r arg ! j))"
    then obtain j where own: "own_augmentors r = Some arg" and j: "i \<le> j" "j < length (items r arg)"
      "is_Augmentor (items r arg ! j)" by blast
    have i: "i < length (items r arg)" using j by simp
    show False
    proof (cases "is_Augmentor (items r arg ! i)")
      case True
      let ?r = "r\<lparr>items := (items r)(arg := items r arg @ [items r arg ! i])\<rparr>"
      have "loop arg (i + 1) ?r = Some y" using step(2) i True own by simp
      from step(1) [OF this]
      have "\<not> (own_augmentors ?r = Some arg
            \<and> (\<exists>j\<ge>i + 1. j < length (items ?r arg) \<and> is_Augmentor (items ?r arg ! j)))" .
      moreover have "i + 1 \<le> length (items r arg) \<and> length (items r arg) < length (items ?r arg)
          \<and> is_Augmentor (items ?r arg ! length (items r arg))"
        using i True by simp
      ultimately show False using own by auto
    next
      case False
      let ?r = "r\<lparr>logged := logged r @ [WarnNotAugmentor (items r arg ! i)]\<rparr>"
      have "loop arg (i + 1) ?r = Some y" using step(2) i False by simp
      from step(1) [OF this]
      have "\<not> (own_augmentors ?r = Some arg
            \<and> (\<exists>j\<ge>i + 1. j < length (items ?r arg) \<and> is_Augmentor (items ?r arg ! j)))" .
      moreover have "i + 1 \<le> j" using j False by (cases "i = j") auto
      ultimately show False using own j by auto
    qed
  qed
qed

lemma transformers_loop_rest_dropped:
  "\<forall>x \<in> set (drop i (items r arg)). \<not> is_Transformer x \<Longrightarrow>
   transformers_loop arg i r =
     Some (r\<lparr>logged := logged r @ map WarnNotTransformer (drop i (items r arg))\<rparr>)"
proof (induction "length (items r arg) - i" arbitrary: i r)
  case 0
  then show ?case by (subst transformers_loop.simps) simp
next
  case (Suc n)
  then have i: "i < length (items r arg)" by simp
  then have d: "drop i (items r arg) = items r arg ! i # drop (Suc i) (items r arg)"
    by (simp add: Cons_nth_drop_Suc)
  let ?r = "r\<lparr>logged := logged r @ [WarnNotTransformer (items r arg ! i)]\<rparr>"
  have x: "\<not> is_Transformer (items r arg ! i)" using Suc.prems d by simp
  have "transformers_loop arg (Suc i) ?r =
      Some (?r\<lparr>logged := logged ?r @ map WarnNotTransformer (drop (Suc i) (items ?r arg))\<rparr>)"
  proof (rule Suc.hyps(1))
    show "n = length (items ?r arg) - Suc i" using Suc.hyps(2) by simp
    show "\<forall>x \<in> set (drop (Suc i) (items ?r arg)). \<not> is_Transformer x" using Suc.prems d by simp
  qed
  then show ?case using i x d by (subst transformers_loop.simps) simp
qed

lemma transformers_loop_other_list:
  "own_transformers r = Some a \<Longrightarrow> arg \<noteq> a \<Longrightarrow>
   transformers_loop arg i r =
     Some (r\<lparr>items := (items r)(a := items r a @ filter is_Transformer (drop i (items r arg))),
            logged := logged r @
              map WarnNotTransformer (filter (\<lambda>x. \<not> is_Transformer x) (drop i (items r arg)))\<rparr>)"
proof (induction "length (items r arg) - i" arbitrary: i r)
  case 0
  then show ?case by (subst transformers_loop.simps) simp
next
  case (Suc n)
  then have i: "i < length (items r arg)" by simp
  then have d: "drop i (items r arg) = items r arg ! i # drop (Suc i) (items r arg)"
    by (simp add: Cons_nth_drop_Suc)
  show ?case
  proof (cases "is_Transformer (items r arg ! i)")
    case True
    let ?r = "r\<lparr>items := (items r)(a := items r a @ [items r arg ! i])\<rparr>"
    have "transformers_loop arg (Suc i) ?r =
      Some (?r\<lparr>items := (items ?r)(a := items ?r a @ filter is_Transformer (drop (Suc i) (items ?r arg))),
            logged := logged ?r @
              map WarnNotTransformer (filter (\<lambda>x. \<not> is_Transformer x) (drop (Suc i) (items ?r arg)))\<rparr>)"
    proof (rule Suc.hyps(1))
      show "n = length (items ?r arg) - Suc i" using Suc.hyps(2) Suc.prems(2) by simp
      show "own_transformers ?r = Some a" using Suc.prems(1) by simp
      show "arg \<noteq> a" by (rule Suc.prems(2))
    qed
    then show ?thesis using i True d Suc.prems by (subst transformers_loop.simps) simp
  next
    case False
    let ?r = "r\<lparr>logged := logged r @ [WarnNotTransformer (items r arg ! i)]\<rparr>"
    have "transformers_loop arg (Suc i) ?r =
      Some (?r\<lparr>items := (items ?r)(a := items ?r a @ filter is_Transformer (drop (Suc i) (items ?r arg))),
            logged := logged ?r @
              map WarnNotTransformer (filter (\<lambda>x. \<not> is_Transformer x) (drop (Suc i) (items ?r arg)))\<rparr>)"
    proof (rule Suc.hyps(1))
      show "n = length (items ?r arg) - Suc i" using Suc.hyps(2) by simp
      show "own_transformers ?r = Some a" using Suc.prems(1) by simp
      show "arg \<noteq> a" by (rule Suc.prems(2))
    qed
    then show ?thesis using i False d Suc.prems by (subst transformers_loop.simps) simp
  qed
qed

lemma transformers_loop_first_list:
  "own_transformers r = None \<Longrightarrow> arg \<noteq> next_list r \<Longrightarrow>
   transformers_loop arg i r =
     Some (if filter is_Transformer (drop i (items r arg)) = []
       then r\<lparr>logged := logged r @ map WarnNotTransformer (drop i (items r arg))\<rparr>
       else r\<lparr>items := (items r)(next_list r := filter is_Transformer (drop i (items r arg))),
              next_list := next_list r + 1,
              own_transformers := Some (next_list r),
              logged := logged r @
                map WarnNotTransformer (filter (\<lambda>x. \<not> is_Transformer x) (drop i (items r arg)))\<rparr>)"
proof (induction "length (items r arg) - i" arbitrary: i r)
  case 0
  then show ?case by (subst transformers_loop.simps) simp
next
  case (Suc n)
  then have i: "i < length (items r arg)" by simp
  then have d: "drop i (items r arg) = items r arg ! i # drop (Suc i) (items r arg)"
    by (simp add: Cons_nth_drop_Suc)
  show ?case
  proof (cases "is_Transformer (items r arg ! i)")
    case True
    let ?r = "r\<lparr>items := (items r)(next_list r := [items r arg ! i]),
                   next_list := next_list r + 1,
                   own_transformers := Some (next_list r)\<rparr>"
    have "transformers_loop arg (Suc i) ?r =
      Some (?r\<lparr>items := (items ?r)(next_list r := items ?r (next_list r) @ filter is_Transformer (drop (Suc i) (items ?r arg))),
            logged := logged ?r @
              map WarnNotTransformer (filter (\<lambda>x. \<not> is_Transformer x) (drop (Suc i) (items ?r arg)))\<rparr>)"
      by (rule transformers_loop_other_list) (simp_all add: Suc.prems(2))
    then show ?thesis using i True d Suc.prems by (subst transformers_loop.simps) simp
  next
    case False
    let ?r = "r\<lparr>logged := logged r @ [WarnNotTransformer (items r arg ! i)]\<rparr>"
    have "transformers_loop arg (Suc i) ?r =
     Some (if filter is_Transformer (drop (Suc i) (items ?r arg)) = []
       then ?r\<lparr>logged := logged ?r @ map WarnNotTransformer (drop (Suc i) (items ?r arg))\<rparr>
       else ?r\<lparr>items := (items ?r)(next_list ?r := filter is_Transformer (drop (Suc i) (items ?r arg))),
              next_list := next_list ?r + 1,
              own_transformers := Some (next_list ?r),
              logged := logged ?r @
                map WarnNotTransformer (filter (\<lambda>x. \<not> is_Transformer x) (drop (Suc i) (items ?r arg)))\<rparr>)"
    proof (rule Suc.hyps(1))
      show "n = length (items ?r arg) - Suc i" using Suc.hyps(2) by simp
      show "own_transformers ?r = None" using Suc.prems(1) by simp
      show "arg \<noteq> next_list ?r" using Suc.prems(2) by simp
    qed
    then show ?thesis using i False d Suc.prems by (subst transformers_loop.simps) simp
  qed
qed

lemma transformers_loop_own_list:
  assumes "transformers_loop arg i r = Some y"
  shows "\<not> (own_transformers r = Some arg
            \<and> (\<exists>j\<ge>i. j < length (items r arg) \<and> is_Transformer (items r arg ! j)))"
  using assms
proof (induction arg i r y rule: transformers_loop.raw_induct [rotated 1, consumes 1, case_names step])
  case (step loop arg i r y)
  show ?case
  proof
    assume inv: "own_transformers r = Some arg
       \<and> (\<exists>j\<ge>i. j < length (items r arg) \<and> is_Transformer (items r arg ! j))"
    then obtain j where own: "own_transformers r = Some arg" and j: "i \<le> j" "j < length (items r arg)"
      "is_Transformer (items r arg ! j)" by blast
    have i: "i < length (items r arg)" using j by simp
    show False
    proof (cases "is_Transformer (items r arg ! i)")
      case True
      let ?r = "r\<lparr>items := (items r)(arg := items r arg @ [items r arg ! i])\<rparr>"
      have "loop arg (i + 1) ?r = Some y" using step(2) i True own by simp
      from step(1) [OF this]
      have "\<not> (own_transformers ?r = Some arg
            \<and> (\<exists>j\<ge>i + 1. j < length (items ?r arg) \<and> is_Transformer (items ?r arg ! j)))" .
      moreover have "i + 1 \<le> length (items r arg) \<and> length (items r arg) < length (items ?r arg)
          \<and> is_Transformer (items ?r arg ! length (items r arg))"
        using i True by simp
      ultimately show False using own by auto
    next
      case False
      let ?r = "r\<lparr>logged := logged r @ [WarnNotTransformer (items r arg ! i)]\<rparr>"
      have "loop arg (i + 1) ?r = Some y" using step(2) i False by simp
      from step(1) [OF this]
      have "\<not> (own_transformers ?r = Some arg
            \<and> (\<exists>j\<ge>i + 1. j < length (items ?r arg) \<and> is_Transformer (items ?r arg ! j)))" .
      moreover have "i + 1 \<le> j" using j False by (cases "i = j") auto
      ultimately show False using own j by auto
    qed
  qed
qed

lemma augmentors_setter_result:
  assumes "arg < next_list r"
  shows "augmentors_setter r arg =
    (if own_augmentors r = Some arg \<and> (\<exists>x \<in> set (items r arg). is_Augmentor x) then None
     else Some (case own_augmentors r of
        Some own \<Rightarrow>
          r\<lparr>items := (items r)(own := items r own @ filter is_Augmentor (items r arg)),
            logged := logged r @
              map WarnNotAugmentor (filter (\<lambda>x. \<not> is_Augmentor x) (items r arg))\<rparr>
      | None \<Rightarrow>
          if filter is_Augmentor (items r arg) = []
          then r\<lparr>logged := logged r @ map WarnNotAugmentor (items r arg)\<rparr>
          else r\<lparr>items := (items r)(next_list r := filter is_Augmentor (items r arg)),
                 next_list := next_list r + 1,
                 own_augmentors := Some (next_list r),
                 logged := logged r @
                   map WarnNotAugmentor (filter (\<lambda>x. \<not> is_Augmentor x) (items r arg))\<rparr>))"
proof (cases "own_augmentors r")
  case None
  then show ?thesis using assms augmentors_loop_first_list [of r arg 0]
    by (simp add: augmentors_setter_def)
next
  case (Some own)
  show ?thesis
  proof (cases "own = arg")
    case False
    then show ?thesis using Some augmentors_loop_other_list [of r own arg 0]
      by (auto simp add: augmentors_setter_def)
  next
    case True
    show ?thesis
    proof (cases "\<exists>x \<in> set (items r arg). is_Augmentor x")
      case ex: True
      then obtain j where "j < length (items r arg)" "is_Augmentor (items r arg ! j)"
        by (auto simp add: in_set_conv_nth)
      then have "augmentors_loop arg 0 r = None"
        using augmentors_loop_own_list [of arg 0 r] Some True by (cases "augmentors_loop arg 0 r") auto
      then show ?thesis using ex Some True by (simp add: augmentors_setter_def)
    next
      case no: False
      then have f: "filter is_Augmentor (items r arg) = []"
        "filter (\<lambda>x. \<not> is_Augmentor x) (items r arg) = items r arg"
        by (simp_all add: filter_empty_conv filter_id_conv)
      have "augmentors_loop arg 0 r =
          Some (r\<lparr>logged := logged r @ map WarnNotAugmentor (drop 0 (items r arg))\<rparr>)"
        by (rule augmentors_loop_rest_dropped) (use no in simp)
      then show ?thesis using no Some True f by (simp add: augmentors_setter_def)
    qed
  qed
qed

lemma transformers_setter_result:
  assumes "arg < next_list r"
  shows "transformers_setter r arg =
    (if own_transformers r = Some arg \<and> (\<exists>x \<in> set (items r arg). is_Transformer x) then None
     else Some (case own_transformers r of
        Some own \<Rightarrow>
          r\<lparr>items := (items r)(own := items r own @ filter is_Transformer (items r arg)),
            logged := logged r @
              map WarnNotTransformer (filter (\<lambda>x. \<not> is_Transformer x) (items r arg))\<rparr>
      | None \<Rightarrow>
          if filter is_Transformer (items r arg) = []
          then r\<lparr>logged := logged r @ map WarnNotTransformer (items r arg)\<rparr>
          else r\<lparr>items := (items r)(next_list r := filter is_Transformer (items r arg)),
                 next_list := next_list r + 1,
                 own_transformers := Some (next_list r),
                 logged := logged r @
                   map WarnNotTransformer (filter (\<lambda>x. \<not> is_Transformer x) (items r arg))\<rparr>))"
proof (cases "own_transformers r")
  case None
  then show ?thesis using assms transformers_loop_first_list [of r arg 0]
    by (simp add: transformers_setter_def)
next
  case (Some own)
  show ?thesis
  proof (cases "own = arg")
    case False
    then show ?thesis using Some transformers_loop_other_list [of r own arg 0]
      by (auto simp add: transformers_setter_def)
  next
    case True
    show ?thesis
    proof (cases "\<exists>x \<in> set (items r arg). is_Transformer x")
      case ex: True
      then obtain j where "j < length (items r arg)" "is_Transformer (items r arg ! j)"
        by (auto simp add: in_set_conv_nth)
      then have "transformers_loop arg 0 r = None"
        using transformers_loop_own_list [of arg 0 r] Some True by (cases "transformers_loop arg 0 r") auto
      then show ?thesis using ex Some True by (simp add: transformers_setter_def)
    next
      case no: False
      then have f: "filter is_Transformer (items r arg) = []"
        "filter (\<lambda>x. \<not> is_Transformer x) (items r arg) = items r arg"
        by (simp_all add: filter_empty_conv filter_id_conv)
      have "transformers_loop arg 0 r =
          Some (r\<lparr>logged := logged r @ map WarnNotTransformer (drop 0 (items r arg))\<rparr>)"
        by (rule transformers_loop_rest_dropped) (use no in simp)
      then show ?thesis using no Some True f by (simp add: transformers_setter_def)
    qed
  qed
qed

text \<open>
  C10. Assigning a list object to \<^verbatim>\<open>augmentors\<close> (and in the same way to \<^verbatim>\<open>transformers\<close>):
  when the assigned list is not the provider's own stage list, or holds no conforming
  element, the assignment returns; the conforming elements of the assigned list have been
  appended, in order, to the provider's list object (to a new list object when the attribute
  was \<^verbatim>\<open>None\<close> and there is a conforming element), the stages registered before are still
  there, no other list object has changed, and one warning has been logged for each
  non-conforming element, in order. When the assigned list is the provider's own stage list
  and holds a conforming element, which is what \<^verbatim>\<open>provider.augmentors += [x]\<close> assigns, the
  loop appends to the list it iterates over and the assignment never returns.
\<close>

theorem setters_append_unless_own_list:
  assumes "arg < next_list r"
  shows "augmentors_setter r arg =
    (if own_augmentors r = Some arg \<and> (\<exists>x \<in> set (items r arg). is_Augmentor x) then None
     else Some (case own_augmentors r of
        Some own \<Rightarrow>
          r\<lparr>items := (items r)(own := items r own @ filter is_Augmentor (items r arg)),
            logged := logged r @
              map WarnNotAugmentor (filter (\<lambda>x. \<not> is_Augmentor x) (items r arg))\<rparr>
      | None \<Rightarrow>
          if filter is_Augmentor (items r arg) = []
          then r\<lparr>logged := logged r @ map WarnNotAugmentor (items r arg)\<rparr>
          else r\<lparr>items := (items r)(next_list r := filter is_Augmentor (items r arg)),
                 next_list := next_list r + 1,
                 own_augmentors := Some (next_list r),
                 logged := logged r @
                   map WarnNotAugmentor (filter (\<lambda>x. \<not> is_Augmentor x) (items r arg))\<rparr>))
   \<and> transformers_setter r arg =
    (if own_transformers r = Some arg \<and> (\<exists>x \<in> set (items r arg). is_Transformer x) then None
     else Some (case own_transformers r of
        Some own \<Rightarrow>
          r\<lparr>items := (items r)(own := items r own @ filter is_Transformer (items r arg)),
            logged := logged r @
              map WarnNotTransformer (filter (\<lambda>x. \<not> is_Transformer x) (items r arg))\<rparr>
      | None \<Rightarrow>
          if filter is_Transformer (items r arg) = []
          then r\<lparr>logged := logged r @ map WarnNotTransformer (items r arg)\<rparr>
          else r\<lparr>items := (items r)(next_list r := filter is_Transformer (items r arg)),
                 next_list := next_list r + 1,
                 own_transformers := Some (next_list r),
                 logged := logged r @
                   map WarnNotTransformer (filter (\<lambda>x. \<not> is_Transformer x) (items r arg))\<rparr>))"
  using augmentors_setter_result [OF assms] transformers_setter_result [OF assms]
  by (rule conjI)

theorem setters_append_unless_own_list_witness:
  "(0::nat) < next_list registered_lists
   \<and> augmentors_setter registered_lists 0 = None
   \<and> (1::nat) < next_list registered_lists
   \<and> transformers_setter registered_lists 1 = None
   \<and> (2::nat) < next_list registered_lists
   \<and> map_option (\<lambda>r. (items r 0, items r 1, items r 2, logged r))
        (augmentors_setter registered_lists 2) =
      Some ([AugmentorObj failing_reader, AugmentorObj strict_stage, AugmentorObj strict_stage],
            [TransformerObj strict_stage],
            [AugmentorObj strict_stage, OtherCallable failing_reader, TransformerObj failing_reader],
            [WarnNotAugmentor (OtherCallable failing_reader),
             WarnNotAugmentor (TransformerObj failing_reader)])
   \<and> map_option (\<lambda>r. (items r 0, items r 1, items r 2, logged r))
        (transformers_setter registered_lists 2) =
      Some ([AugmentorObj failing_reader, AugmentorObj strict_stage],
            [TransformerObj strict_stage, TransformerObj failing_reader],
            [AugmentorObj strict_stage, OtherCallable failing_reader, TransformerObj failing_reader],
            [WarnNotTransformer (AugmentorObj strict_stage),
             WarnNotTransformer (OtherCallable failing_reader)])"
proof -
  have n: "(0::nat) < next_list registered_lists" "(1::nat) < next_list registered_lists"
    "(2::nat) < next_list registered_lists"
    by (simp_all add: registered_lists_def)
  show ?thesis
    using n setters_append_unless_own_list [OF n(1)] setters_append_unless_own_list [OF n(2)]
      setters_append_unless_own_list [OF n(3)]
    by (simp add: registered_lists_def)
qed

subsection \<open>Construction\<close>

lemma validate_rows:
  "validate path_exists (RowList rows) skip =
     (if filter (\<lambda>d. path_exists (fst d)) rows = [] then Inl FileNotFoundError
      else Inr (Some (RowList (filter (\<lambda>d. path_exists (fst d)) rows))))"
  by (simp add: validate_list_dataset_def)

lemma validate_data_frame:
  "validate path_exists (DataFrame rows) skip = validate path_exists (RowList rows) skip"
  by simp

lemma init_validating_raises:
  "\<not> arg_skip_validation a \<Longrightarrow> init path_exists a = Inl TypeError"
  by (simp add: init_def init_validate_def bind_positional_def validate_params_def)

text \<open>
  C6. \<^verbatim>\<open>validate\<close> given a path string that does not exist returns \<^verbatim>\<open>None\<close>, not the
  string; and the constructor, with validation enabled, raises \<^verbatim>\<open>TypeError\<close> on the call
  of \<^verbatim>\<open>validate\<close> itself, here for the three rows of which two exist on disk.
\<close>

theorem validate_missing_path_and_constructor:
  "validate disk3 (PathStr ''missing.bin'') False = Inr None
   \<and> validate disk3 (RowList rows3) False = Inr (Some (RowList [(''a.bin'', PyStr ''cat''), (''b.bin'', PyStr ''dog'')]))
   \<and> init disk3 validating_args = Inl TypeError"
  by (simp add: disk3_def rows3_def validate_list_dataset_def init_def init_validate_def
        bind_positional_def validate_params_def validating_args_def)

text \<open>
  C4. The constructor of the pooled provider raises \<^verbatim>\<open>TypeError\<close> whatever its arguments:
  the base constructor has no parameter \<^verbatim>\<open>batch_postprocessors\<close>.
\<close>

theorem torch_init_raises:
  "torch_init path_exists a = Inl TypeError"
  by (simp add: torch_init_def bind_keywords_def init_params_def super_init_keywords_def)

subsection \<open>End of epoch\<close>









subsection \<open>Samples without data\<close>

lemma load_sample_null:
  assumes "use_cache p \<longrightarrow> map_of (cache p) (fst d) = None"
    and "run_stages (data_preprocessors p) (Scalar (PyStr (fst d)), Scalar (snd d)) h = (Inr (data, annotation), h1)"
    and "data = PyNone \<or> annotation = PyNone"
  shows "load_sample p h d =
    (Inr None, p\<lparr>on_epoch_end_remove := on_epoch_end_remove p @ [d],
                logger := logger p @ [WarnMarkedForRemoval]\<rparr>, h1)"
proof -
  have "(if use_cache p then map_of (cache p) (fst d) else None) = None"
    using assms(1) by auto
  then show ?thesis using assms(2,3) by (simp add: load_sample_def)
qed

text \<open>
  C1 (as the code has it). The test for \<^verbatim>\<open>None\<close> comes after the loop over the
  preprocessors. When a descriptor is not served from the cache and the whole chain
  returns, without raising, a pair whose data or annotation is \<^verbatim>\<open>None\<close>, then
  \<^verbatim>\<open>process_data\<close> logs a warning, appends the descriptor to the removal list and
  returns \<^verbatim>\<open>(None, None)\<close>; the loop of \<^verbatim>\<open>__getitem__\<close> logs, appends nothing for it and
  goes on with the next descriptor, so the sample is left out of the batch, is not
  processed again and raises nothing.
\<close>

theorem null_sample_is_dropped:
  assumes "use_cache p \<longrightarrow> map_of (cache p) (fst d) = None"
    and "run_stages (data_preprocessors p) (Scalar (PyStr (fst d)), Scalar (snd d)) h = (Inr (data, annotation), h1)"
    and "data = PyNone \<or> annotation = PyNone"
  shows "process_data p h d =
      (Inr (PyNone, PyNone),
       p\<lparr>on_epoch_end_remove := on_epoch_end_remove p @ [d],
         logger := logger p @ [WarnMarkedForRemoval]\<rparr>, h1)
    \<and> process_batch p h (d # rest) batch_data batch_annotations =
      process_batch
        (p\<lparr>on_epoch_end_remove := on_epoch_end_remove p @ [d],
           logger := logger p @ [WarnMarkedForRemoval, WarnSkipping]\<rparr>)
        h1 rest batch_data batch_annotations"
proof -
  have pd: "process_data p h d =
      (Inr (PyNone, PyNone),
       p\<lparr>on_epoch_end_remove := on_epoch_end_remove p @ [d],
         logger := logger p @ [WarnMarkedForRemoval]\<rparr>, h1)"
    using load_sample_null [OF assms] by (simp add: process_data_def)
  show ?thesis by (simp add: pd)
qed

theorem null_sample_is_dropped_witness:
  "map_of (cache (reading_provider [failing_reader])) ''missing.bin'' = None
   \<and> run_stages (data_preprocessors (reading_provider [failing_reader]))
        (Scalar (PyStr ''missing.bin''), Scalar (PyStr ''fox'')) empty_heap = (Inr (PyNone, PyNone), empty_heap)
   \<and> fst (process_data (reading_provider [failing_reader]) empty_heap (''missing.bin'', PyStr ''fox''))
        = Inr (PyNone, PyNone)
   \<and> on_epoch_end_remove (fst (snd (process_data (reading_provider [failing_reader]) empty_heap (''missing.bin'', PyStr ''fox''))))
        = [(''missing.bin'', PyStr ''fox'')]
   \<and> fst (process_batch (reading_provider [failing_reader]) empty_heap [(''missing.bin'', PyStr ''fox'')] [] [])
        = Inr ([], [])"
proof -
  let ?p = "reading_provider [failing_reader]"
  let ?d = "(''missing.bin'', PyStr ''fox'') :: descriptor"
  have a: "use_cache ?p \<longrightarrow> map_of (cache ?p) (fst ?d) = None"
    by (simp add: reading_provider_def)
  have b: "run_stages (data_preprocessors ?p) (Scalar (PyStr (fst ?d)), Scalar (snd ?d)) empty_heap
             = (Inr (PyNone, PyNone), empty_heap)"
    by (simp add: reading_provider_def failing_reader_def)
  have c: "PyNone = PyNone \<or> PyNone = PyNone" by simp
  from null_sample_is_dropped [OF a b c, of "[]" "[]" "[]"]
  show ?thesis using a b by (simp add: reading_provider_def)
qed

text \<open>
  A \<^verbatim>\<open>None\<close> produced by an earlier preprocessor goes into the next one: if that one
  raises, the exception leaves \<^verbatim>\<open>process_data\<close>; if it returns values, the sample is
  kept. Neither marks the descriptor.
\<close>

theorem null_from_earlier_preprocessor_counterexample:
  "fst (run_stages [failing_reader] (Scalar (PyStr ''missing.bin''), Scalar (PyStr ''fox'')) empty_heap)
     = Inr (PyNone, PyNone)
   \<and> fst (process_data (reading_provider [failing_reader, strict_stage]) empty_heap (''missing.bin'', PyStr ''fox''))
     = Inl AttributeError
   \<and> on_epoch_end_remove (fst (snd (process_data (reading_provider [failing_reader, strict_stage]) empty_heap (''missing.bin'', PyStr ''fox'')))) = []
   \<and> fst (process_data (reading_provider [failing_reader, default_stage]) empty_heap (''missing.bin'', PyStr ''fox''))
     = Inr (Ref 0, Scalar (PyStr ''unknown''))
   \<and> on_epoch_end_remove (fst (snd (process_data (reading_provider [failing_reader, default_stage]) empty_heap (''missing.bin'', PyStr ''fox'')))) = []"
  by (simp add: process_data_def load_sample_def reading_provider_def failing_reader_def
        strict_stage_def default_stage_def empty_heap_def alloc_def augment_and_convert_def
        is_ndarray_def annotation_is_plain_def Let_def)

subsection \<open>The cache and the objects handed out\<close>

lemma alloc_props:
  assumes "alloc c h = (a, h')"
  shows "a = nxt h" and "nxt h' = Suc (nxt h)" and "cells h' (nxt h) = c"
    and "\<And>x. x \<noteq> nxt h \<Longrightarrow> cells h' x = cells h x"
  using assms by (auto simp add: alloc_def)

lemma deepcopy_props:
  assumes "deepcopy v h = (v', h')"
  shows "nxt h \<le> nxt h'" and "val_refs v' \<subseteq> {nxt h ..< nxt h'}"
    and "content_of h' v' = content_of h v"
    and "\<And>x. x < nxt h \<Longrightarrow> cells h' x = cells h x"
  using assms by (cases v; auto simp add: deepcopy_def alloc_def)+

lemma deepcopy_pair_props:
  assumes "deepcopy_pair e h = (da, h')" and "pair_refs e \<subseteq> {..< nxt h}"
  shows "nxt h \<le> nxt h'" and "pair_refs da \<subseteq> {nxt h ..< nxt h'}"
    and "content_of h' (fst da) = content_of h (fst e)"
    and "content_of h' (snd da) = content_of h (snd e)"
    and "\<And>x. x < nxt h \<Longrightarrow> cells h' x = cells h x"
  using assms
  by (cases e; cases "fst e"; cases "snd e";
      auto simp add: deepcopy_pair_def alloc_def Let_def split: if_splits)+

lemma stage_okD:
  assumes "stage_ok f" and "f da h = (r, h')"
  shows "nxt h \<le> nxt h'"
    and "\<And>x. x < nxt h \<Longrightarrow> x \<notin> pair_refs da \<Longrightarrow> cells h' x = cells h x"
    and "\<And>da'. r = Inr da' \<Longrightarrow> pair_refs da' \<subseteq> pair_refs da \<union> {nxt h ..< nxt h'}"
  using assms unfolding stage_ok_def by blast+

lemma stage_okI:
  assumes "\<And>da h r h'. f da h = (r, h') \<Longrightarrow> nxt h \<le> nxt h'"
    and "\<And>da h r h' x. f da h = (r, h') \<Longrightarrow> x < nxt h \<Longrightarrow> x \<notin> pair_refs da \<Longrightarrow> cells h' x = cells h x"
    and "\<And>da h da' h'. f da h = (Inr da', h') \<Longrightarrow> pair_refs da' \<subseteq> pair_refs da \<union> {nxt h ..< nxt h'}"
  shows "stage_ok f"
  unfolding stage_ok_def using assms by blast

lemma stage_ok_compose:
  assumes f: "stage_ok f" and g: "stage_ok g"
  shows "stage_ok (\<lambda>da h. case f da h of (Inl e, h') \<Rightarrow> (Inl e, h') | (Inr da', h') \<Rightarrow> g da' h')"
proof (rule stage_okI)
  fix da h r h'
  assume run: "(case f da h of (Inl e, h') \<Rightarrow> (Inl e, h') | (Inr da', h') \<Rightarrow> g da' h') = (r, h')"
  obtain r1 h1 where f1: "f da h = (r1, h1)" by (cases "f da h")
  note F = stage_okD [OF f f1]
  show "nxt h \<le> nxt h'"
  proof (cases r1)
    case (Inl e)
    with run f1 F(1) show ?thesis by simp
  next
    case (Inr da1)
    with run f1 have g1: "g da1 h1 = (r, h')" by simp
    from stage_okD(1) [OF g g1] F(1) show ?thesis by simp
  qed
  fix x assume x: "x < nxt h" "x \<notin> pair_refs da"
  show "cells h' x = cells h x"
  proof (cases r1)
    case (Inl e)
    with run f1 F(2) [OF x] show ?thesis by simp
  next
    case (Inr da1)
    with run f1 have g1: "g da1 h1 = (r, h')" by simp
    have "x \<notin> pair_refs da1" using F(3) [OF Inr] x by auto
    moreover have "x < nxt h1" using x F(1) by simp
    ultimately have "cells h' x = cells h1 x" by (rule stage_okD(2) [OF g g1, rotated])
    then show ?thesis using F(2) [OF x] by simp
  qed
next
  fix da h da' h'
  assume run: "(case f da h of (Inl e, h') \<Rightarrow> (Inl e, h') | (Inr da', h') \<Rightarrow> g da' h') = (Inr da', h')"
  obtain r1 h1 where f1: "f da h = (r1, h1)" by (cases "f da h")
  note F = stage_okD [OF f f1]
  show "pair_refs da' \<subseteq> pair_refs da \<union> {nxt h ..< nxt h'}"
  proof (cases r1)
    case (Inl e)
    with run f1 show ?thesis by simp
  next
    case (Inr da1)
    with run f1 have g1: "g da1 h1 = (Inr da', h')" by simp
    note G = stage_okD [OF g g1]
    have "pair_refs da' \<subseteq> pair_refs da1 \<union> {nxt h1 ..< nxt h'}" by (rule G(3)) simp
    moreover have "pair_refs da1 \<subseteq> pair_refs da \<union> {nxt h ..< nxt h1}" by (rule F(3)) (rule Inr)
    ultimately show ?thesis using F(1) G(1) by force
  qed
qed

lemma stage_ok_return: "stage_ok (\<lambda>da h. (Inr da, h))"
  by (rule stage_okI) auto

lemma stage_ok_raise: "stage_ok (\<lambda>da h. (Inl e, h))"
  by (rule stage_okI) auto

lemma run_stages_ok: "(\<forall>f \<in> set fs. stage_ok f) \<Longrightarrow> stage_ok (run_stages fs)"
proof (induction fs)
  case Nil
  have "run_stages [] = (\<lambda>da h. (Inr da, h))" by (intro ext) simp
  then show ?case by (simp add: stage_ok_return)
next
  case (Cons f fs)
  have "run_stages (f # fs) =
    (\<lambda>da h. case f da h of (Inl e, h') \<Rightarrow> (Inl e, h') | (Inr da', h') \<Rightarrow> run_stages fs da' h')"
    by (intro ext) simp
  moreover have "stage_ok f" "stage_ok (run_stages fs)" using Cons by simp_all
  ultimately show ?case by (simp add: stage_ok_compose)
qed

lemma run_objects_ok:
  "(\<forall>objects. Some objects \<in> set os \<longrightarrow> (\<forall>s \<in> set objects. stage_ok (call_stage s)))
   \<Longrightarrow> stage_ok (run_objects os)"
proof (induction os)
  case Nil
  have "run_objects [] = (\<lambda>da h. (Inr da, h))" by (intro ext) simp
  then show ?case by (simp add: stage_ok_return)
next
  case (Cons o1 os)
  show ?case
  proof (cases o1)
    case None
    have "run_objects (None # os) = (\<lambda>da h. (Inl TypeError, h))" by (intro ext) simp
    then show ?thesis using None by (simp add: stage_ok_raise)
  next
    case (Some objects)
    have "run_objects (Some objects # os) =
      (\<lambda>da h. case run_stages (map call_stage objects) da h of
                 (Inl e, h') \<Rightarrow> (Inl e, h') | (Inr da', h') \<Rightarrow> run_objects os da' h')"
      by (intro ext) simp
    moreover have "stage_ok (run_stages (map call_stage objects))"
      using Cons.prems Some by (intro run_stages_ok) auto
    moreover have "stage_ok (run_objects os)" using Cons by auto
    ultimately show ?thesis using Some by (simp add: stage_ok_compose)
  qed
qed


lemma numpy_method_props:
  assumes "numpy_method v h = (r, h')"
  shows "nxt h \<le> nxt h'" and "\<And>x. x < nxt h \<Longrightarrow> cells h' x = cells h x"
    and "\<And>v'. r = Inr v' \<Longrightarrow> val_refs v' \<subseteq> {nxt h ..< nxt h'}"
  using assms
  by (auto simp add: numpy_method_def alloc_def split: val.splits prod.splits kind.splits)

lemma augment_and_convert_props:
  assumes ok: "stages_ok p" and run: "augment_and_convert p da h = (r, h')"
  shows "nxt h \<le> nxt h' \<and> (\<forall>x. x < nxt h \<longrightarrow> x \<notin> pair_refs da \<longrightarrow> cells h' x = cells h x)
          \<and> (\<forall>da'. r = Inr da' \<longrightarrow> pair_refs da' \<subseteq> pair_refs da \<union> {nxt h ..< nxt h'})"
proof -
  have ro: "stage_ok (run_objects [augmentors p, transformers p])"
  proof (rule run_objects_ok, intro allI impI ballI)
    fix objects s
    assume "Some objects \<in> set [augmentors p, transformers p]" and s: "s \<in> set objects"
    then have "augmentors p = Some objects \<or> transformers p = Some objects" by auto
    with ok s show "stage_ok (call_stage s)" unfolding stages_ok_def by blast
  qed
  obtain r1 h1 where o: "run_objects [augmentors p, transformers p] da h = (r1, h1)"
    by (cases "run_objects [augmentors p, transformers p] da h")
  note O = stage_okD [OF ro o]
  show ?thesis
  proof (cases r1)
    case (Inl e)
    with run o have "r = Inl e" "h' = h1" by (simp_all add: augment_and_convert_def)
    with O Inl show ?thesis by simp
  next
    case (Inr da1)
    obtain data annotation where da1: "da1 = (data, annotation)" by (cases da1)
    obtain r2 h2 where c1: "(if \<not> is_ndarray h1 data then numpy_method data h1 else (Inr data, h1)) = (r2, h2)"
      by (cases "if \<not> is_ndarray h1 data then numpy_method data h1 else (Inr data, h1)")
    have C1: "nxt h1 \<le> nxt h2" "\<And>x. x < nxt h1 \<Longrightarrow> cells h2 x = cells h1 x"
      "\<And>v'. r2 = Inr v' \<Longrightarrow> val_refs v' \<subseteq> val_refs data \<union> {nxt h1 ..< nxt h2}"
      using c1 numpy_method_props [of data h1 r2 h2] by (auto split: if_splits)
    have base: "pair_refs da1 \<subseteq> pair_refs da \<union> {nxt h ..< nxt h1}" by (rule O(3)) (rule Inr)
    show ?thesis
    proof (cases r2)
      case (Inl e)
      with run o Inr da1 c1 have "r = Inl e" "h' = h2" by (simp_all add: augment_and_convert_def)
      with O C1 show ?thesis by auto
    next
      case r2: (Inr data')
      obtain r3 h3 where c2: "(if \<not> annotation_is_plain h2 annotation then numpy_method annotation h2
                    else (Inr annotation, h2)) = (r3, h3)"
        by (cases "if \<not> annotation_is_plain h2 annotation then numpy_method annotation h2 else (Inr annotation, h2)")
      have C2: "nxt h2 \<le> nxt h3" "\<And>x. x < nxt h2 \<Longrightarrow> cells h3 x = cells h2 x"
        "\<And>v'. r3 = Inr v' \<Longrightarrow> val_refs v' \<subseteq> val_refs annotation \<union> {nxt h2 ..< nxt h3}"
        using c2 numpy_method_props [of annotation h2 r3 h3] by (auto split: if_splits)
      have frame: "\<forall>x. x < nxt h \<longrightarrow> x \<notin> pair_refs da \<longrightarrow> cells h3 x = cells h x"
        using O(1,2) C1(1,2) C2(2) by (metis less_le_trans)
      show ?thesis
      proof (cases r3)
        case (Inl e)
        with run o Inr da1 c1 r2 c2 have "r = Inl e" "h' = h3" by (simp_all add: augment_and_convert_def)
        with O C1 C2 frame show ?thesis by auto
      next
        case r3: (Inr annotation')
        with run o Inr da1 c1 r2 c2 have res: "r = Inr (data', annotation')" "h' = h3"
          by (simp_all add: augment_and_convert_def)
        have "val_refs data' \<subseteq> val_refs data \<union> {nxt h1 ..< nxt h2}" by (rule C1(3)) (rule r2)
        moreover have "val_refs annotation' \<subseteq> val_refs annotation \<union> {nxt h2 ..< nxt h3}"
          by (rule C2(3)) (rule r3)
        ultimately have "pair_refs (data', annotation') \<subseteq> pair_refs da \<union> {nxt h ..< nxt h3}"
          using base da1 O(1) C1(1) C2(1) by fastforce
        with res O C1 C2 frame show ?thesis by auto
      qed
    qed
  qed
qed

lemma augment_and_convert_ok: "stages_ok p \<Longrightarrow> stage_ok (augment_and_convert p)"
  unfolding stage_ok_def using augment_and_convert_props by blast


lemma cache_entry_refs:
  assumes "map_of c k = Some e"
  shows "pair_refs e \<subseteq> cache_refs c"
  using map_of_SomeD [OF assms] by (force simp add: cache_refs_def)

lemma cache_refs_append: "cache_refs (c @ [(k, e)]) = cache_refs c \<union> pair_refs e"
  by (auto simp add: cache_refs_def)

lemma map_of_append_keep:
  "map_of c k = Some e \<Longrightarrow> map_of (c @ c') k = Some e"
  by (simp add: map_add_Some_iff)

lemma load_sample_hit:
  assumes uc: "use_cache p" and hit: "map_of (cache p) (fst d) = Some e"
    and al: "cache_allocated p h"
  shows "\<exists>da h1. load_sample p h d = (Inr (Some da), p, h1)
           \<and> nxt h \<le> nxt h1
           \<and> pair_refs da \<subseteq> {nxt h ..< nxt h1}
           \<and> content_of h1 (fst da) = content_of h (fst e)
           \<and> content_of h1 (snd da) = content_of h (snd e)
           \<and> (\<forall>x. x < nxt h \<longrightarrow> cells h1 x = cells h x)"
proof -
  obtain da h1 where c: "deepcopy_pair e h = (da, h1)" by (cases "deepcopy_pair e h")
  have v: "pair_refs e \<subseteq> {..< nxt h}"
    using cache_entry_refs [OF hit] al by (auto simp add: cache_allocated_def)
  have "load_sample p h d = (Inr (Some da), p, h1)"
    using uc hit c by (simp add: load_sample_def)
  then show ?thesis using deepcopy_pair_props [OF c v] by blast
qed

lemma load_sample_miss:
  assumes uc: "use_cache p" and miss: "map_of (cache p) (fst d) = None"
    and pre: "run_stages (data_preprocessors p) (Scalar (PyStr (fst d)), Scalar (snd d)) h
               = (Inr (data, annotation), h1)"
    and nn: "data \<noteq> PyNone" "annotation \<noteq> PyNone"
    and v: "pair_refs (data, annotation) \<subseteq> {..< nxt h1}"
  shows "\<exists>d' a' h3. load_sample p h d =
             (Inr (Some (data, annotation)), p\<lparr>cache := cache p @ [(fst d, (d', a'))]\<rparr>, h3)
           \<and> nxt h1 \<le> nxt h3
           \<and> pair_refs (d', a') \<subseteq> {nxt h1 ..< nxt h3}
           \<and> content_of h3 d' = content_of h1 data
           \<and> content_of h3 a' = content_of h1 annotation
           \<and> (\<forall>x. x < nxt h1 \<longrightarrow> cells h3 x = cells h1 x)"
proof -
  obtain d' h2 where c1: "deepcopy data h1 = (d', h2)" by (cases "deepcopy data h1")
  obtain a' h3 where c2: "deepcopy annotation h2 = (a', h3)" by (cases "deepcopy annotation h2")
  note D = deepcopy_props [OF c1] and A = deepcopy_props [OF c2]
  have res: "load_sample p h d =
      (Inr (Some (data, annotation)), p\<lparr>cache := cache p @ [(fst d, (d', a'))]\<rparr>, h3)"
    using uc miss pre nn c1 c2 by (simp add: load_sample_def)
  have d'lt: "val_refs d' \<subseteq> {..< nxt h2}" using D(2) by auto
  have "content_of h3 d' = content_of h2 d'"
    using d'lt A(4) by (cases d') auto
  then have cd: "content_of h3 d' = content_of h1 data" using D(3) by simp
  have "val_refs annotation \<subseteq> {..< nxt h1}" using v by simp
  then have "content_of h2 annotation = content_of h1 annotation"
    using D(4) by (cases annotation) auto
  then have ca: "content_of h3 a' = content_of h1 annotation" using A(3) by simp
  have fr: "\<forall>x. x < nxt h1 \<longrightarrow> cells h3 x = cells h1 x"
    using D(1,4) A(4) by (metis less_le_trans)
  have rf: "pair_refs (d', a') \<subseteq> {nxt h1 ..< nxt h3}"
    using D(1,2) A(1,2) by fastforce
  show ?thesis using res cd ca fr rf D(1) A(1) by (intro exI conjI) auto
qed


lemma load_sample_props:
  assumes ok: "stages_ok p" and al: "cache_allocated p h"
    and run: "load_sample p h d = (r, p1, h1)"
  shows "nxt h \<le> nxt h1
    \<and> (\<forall>x. x < nxt h \<longrightarrow> cells h1 x = cells h x)
    \<and> cache_refs (cache p1) \<subseteq> cache_refs (cache p) \<union> {nxt h ..< nxt h1}
    \<and> (\<forall>k e. map_of (cache p) k = Some e \<longrightarrow> map_of (cache p1) k = Some e)
    \<and> data_preprocessors p1 = data_preprocessors p \<and> augmentors p1 = augmentors p
    \<and> transformers p1 = transformers p \<and> use_cache p1 = use_cache p
    \<and> (\<forall>da. r = Inr (Some da) \<longrightarrow>
          pair_refs da \<subseteq> {nxt h ..< nxt h1} \<and> pair_refs da \<inter> cache_refs (cache p1) = {})"
proof (cases "if use_cache p then map_of (cache p) (fst d) else None")
  case (Some e)
  then have uc: "use_cache p" and hit: "map_of (cache p) (fst d) = Some e"
    by (simp_all split: if_splits)
  from load_sample_hit [OF uc hit al] obtain da h1' where
    res: "load_sample p h d = (Inr (Some da), p, h1')" and n: "nxt h \<le> nxt h1'"
    and rf: "pair_refs da \<subseteq> {nxt h ..< nxt h1'}"
    and fr: "\<forall>x. x < nxt h \<longrightarrow> cells h1' x = cells h x"
    by blast
  from res run have eq: "r = Inr (Some da)" "p1 = p" "h1 = h1'" by simp_all
  have "pair_refs da \<inter> cache_refs (cache p) = {}"
    using rf al by (fastforce simp add: cache_allocated_def)
  then show ?thesis using eq n rf fr by auto
next
  case None
  let ?init = "(Scalar (PyStr (fst d)), Scalar (snd d))"
  obtain r0 h0 where pre: "run_stages (data_preprocessors p) ?init h = (r0, h0)"
    by (cases "run_stages (data_preprocessors p) ?init h")
  have "stage_ok (run_stages (data_preprocessors p))"
    using ok by (intro run_stages_ok) (simp add: stages_ok_def)
  note P = stage_okD [OF this pre]
  have n0: "nxt h \<le> nxt h0" by (rule P(1))
  have fr0: "\<forall>x. x < nxt h \<longrightarrow> cells h0 x = cells h x" using P(2) by simp
  show ?thesis
  proof (cases r0)
    case (Inl e)
    with run None pre have "r = Inl e" "p1 = p" "h1 = h0" by (simp_all add: load_sample_def)
    then show ?thesis using n0 fr0 by auto
  next
    case (Inr da0)
    obtain data annotation where da0: "da0 = (data, annotation)" by (cases da0)
    have rf0: "pair_refs (data, annotation) \<subseteq> {nxt h ..< nxt h0}"
      using P(3) [OF Inr] da0 by simp
    show ?thesis
    proof (cases "data = PyNone \<or> annotation = PyNone")
      case True
      with run None pre Inr da0 have "r = Inr None" "h1 = h0"
        "p1 = p\<lparr>logger := logger p @ [WarnMarkedForRemoval],
                on_epoch_end_remove := on_epoch_end_remove p @ [d]\<rparr>"
        by (simp_all add: load_sample_def)
      then show ?thesis using n0 fr0 by auto
    next
      case nn: False
      show ?thesis
      proof (cases "use_cache p")
        case uc: True
        with None have miss: "map_of (cache p) (fst d) = None" by simp
        have v: "pair_refs (data, annotation) \<subseteq> {..< nxt h0}" using rf0 by auto
        from load_sample_miss [OF uc miss pre [unfolded Inr da0] _ _ v] nn
        obtain d' a' h3 where
          res: "load_sample p h d =
             (Inr (Some (data, annotation)), p\<lparr>cache := cache p @ [(fst d, (d', a'))]\<rparr>, h3)"
          and n3: "nxt h0 \<le> nxt h3" and rf3: "pair_refs (d', a') \<subseteq> {nxt h0 ..< nxt h3}"
          and fr3: "\<forall>x. x < nxt h0 \<longrightarrow> cells h3 x = cells h0 x"
          by blast
        from res run have eq: "r = Inr (Some (data, annotation))"
          "p1 = p\<lparr>cache := cache p @ [(fst d, (d', a'))]\<rparr>" "h1 = h3" by simp_all
        have c1: "cache_refs (cache p1) = cache_refs (cache p) \<union> pair_refs (d', a')"
          by (simp add: eq cache_refs_append)
        have c2: "cache_refs (cache p1) \<subseteq> cache_refs (cache p) \<union> {nxt h ..< nxt h1}"
          unfolding c1 using rf3 n0 eq(3) by fastforce
        have c3: "\<forall>k e. map_of (cache p) k = Some e \<longrightarrow> map_of (cache p1) k = Some e"
          by (simp add: eq map_of_append_keep)
        have c4: "pair_refs (data, annotation) \<subseteq> {nxt h ..< nxt h1}"
          using rf0 n3 eq(3) by fastforce
        have "pair_refs (data, annotation) \<inter> cache_refs (cache p) = {}"
          using rf0 al by (fastforce simp add: cache_allocated_def)
        moreover have "pair_refs (data, annotation) \<inter> pair_refs (d', a') = {}"
          using rf0 rf3 by fastforce
        ultimately have c5: "pair_refs (data, annotation) \<inter> cache_refs (cache p1) = {}"
          unfolding c1 by blast
        have c6: "\<forall>x. x < nxt h \<longrightarrow> cells h1 x = cells h x"
          using fr0 fr3 n0 eq(3) by (metis less_le_trans)
        have c7: "nxt h \<le> nxt h1" using n0 n3 eq(3) by simp
        show ?thesis using c2 c3 c4 c5 c6 c7 eq(1) by (simp add: eq(2))
      next
        case nuc: False
        with run None pre Inr da0 nn have eq: "r = Inr (Some (data, annotation))" "p1 = p" "h1 = h0"
          by (simp_all add: load_sample_def)
        have "pair_refs (data, annotation) \<inter> cache_refs (cache p) = {}"
          using rf0 al by (fastforce simp add: cache_allocated_def)
        then show ?thesis using eq n0 fr0 rf0 by auto
      qed
    qed
  qed
qed


lemma content_of_frame:
  assumes "val_refs v \<subseteq> S" and "\<forall>x \<in> S. cells h' x = cells h x"
  shows "content_of h' v = content_of h v"
  using assms by (cases v) auto

lemma cache_intact_trans:
  "cache_intact p h p1 h1 \<Longrightarrow> cache_intact p1 h1 p2 h2 \<Longrightarrow> cache_intact p h p2 h2"
  unfolding cache_intact_def by metis

lemma cache_intactI:
  assumes "\<forall>k e. map_of (cache p) k = Some e \<longrightarrow> map_of (cache p') k = Some e"
    and "\<forall>x \<in> cache_refs (cache p). cells h' x = cells h x"
  shows "cache_intact p h p' h'"
  unfolding cache_intact_def
proof (intro allI impI)
  fix k d a
  assume e: "map_of (cache p) k = Some (d, a)"
  from cache_entry_refs [OF e] have "val_refs d \<subseteq> cache_refs (cache p)" "val_refs a \<subseteq> cache_refs (cache p)"
    by simp_all
  then have "content_of h' d = content_of h d" "content_of h' a = content_of h a"
    using assms(2) by (auto intro: content_of_frame)
  then show "map_of (cache p') k = Some (d, a) \<and> content_of h' d = content_of h d
      \<and> content_of h' a = content_of h a"
    using assms(1) e by simp
qed

lemma process_data_props:
  assumes ok: "stages_ok p" and al: "cache_allocated p h"
    and run: "process_data p h d = (r, p', h')"
  shows "nxt h \<le> nxt h' \<and> stages_ok p' \<and> cache_allocated p' h' \<and> cache_intact p h p' h'
    \<and> cache_refs (cache p') \<subseteq> cache_refs (cache p) \<union> {nxt h ..< nxt h'}
    \<and> use_cache p' = use_cache p
    \<and> (\<forall>da. r = Inr da \<longrightarrow>
          pair_refs da \<subseteq> {nxt h ..< nxt h'} \<and> pair_refs da \<inter> cache_refs (cache p') = {})"
proof -
  obtain r1 p1 h1 where ld: "load_sample p h d = (r1, p1, h1)" by (cases "load_sample p h d")
  from load_sample_props [OF ok al ld] have
    n1: "nxt h \<le> nxt h1" and fr1: "\<forall>x. x < nxt h \<longrightarrow> cells h1 x = cells h x"
    and cr1: "cache_refs (cache p1) \<subseteq> cache_refs (cache p) \<union> {nxt h ..< nxt h1}"
    and keep: "\<forall>k e. map_of (cache p) k = Some e \<longrightarrow> map_of (cache p1) k = Some e"
    and same: "data_preprocessors p1 = data_preprocessors p" "augmentors p1 = augmentors p"
      "transformers p1 = transformers p" "use_cache p1 = use_cache p"
    and out: "\<forall>da. r1 = Inr (Some da) \<longrightarrow>
          pair_refs da \<subseteq> {nxt h ..< nxt h1} \<and> pair_refs da \<inter> cache_refs (cache p1) = {}"
    by - (elim conjE, assumption)+
  have ok1: "stages_ok p1" using ok same by (simp add: stages_ok_def)
  have al0: "cache_refs (cache p) \<subseteq> {..< nxt h}" using al by (simp add: cache_allocated_def)
  have al1: "cache_refs (cache p1) \<subseteq> {..< nxt h1}" using cr1 al0 n1 by fastforce
  have in1: "cache_intact p h p1 h1"
    using keep fr1 al0 by (intro cache_intactI) auto
  show ?thesis
  proof (cases r1)
    case (Inl e)
    with run ld have "r = Inl e" "p' = p1" "h' = h1" by (simp_all add: process_data_def)
    then show ?thesis using n1 ok1 al1 in1 cr1 same by (simp add: cache_allocated_def)
  next
    case (Inr o1)
    show ?thesis
    proof (cases o1)
      case None
      with run ld Inr have "r = Inr (PyNone, PyNone)" "p' = p1" "h' = h1"
        by (simp_all add: process_data_def)
      then show ?thesis using n1 ok1 al1 in1 cr1 same by (simp add: cache_allocated_def)
    next
      case (Some da)
      obtain r2 h2 where ac: "augment_and_convert p1 da h1 = (r2, h2)"
        by (cases "augment_and_convert p1 da h1")
      with run ld Inr Some have eq: "r = r2" "p' = p1" "h' = h2"
        by (simp_all add: process_data_def)
      from augment_and_convert_props [OF ok1 ac] have
        n2: "nxt h1 \<le> nxt h2"
        and fr2: "\<forall>x. x < nxt h1 \<longrightarrow> x \<notin> pair_refs da \<longrightarrow> cells h2 x = cells h1 x"
        and out2: "\<forall>da'. r2 = Inr da' \<longrightarrow> pair_refs da' \<subseteq> pair_refs da \<union> {nxt h1 ..< nxt h2}"
        by - (elim conjE, assumption)+
      from out Inr Some have da: "pair_refs da \<subseteq> {nxt h ..< nxt h1}"
        "pair_refs da \<inter> cache_refs (cache p1) = {}" by simp_all
      have "\<forall>x \<in> cache_refs (cache p1). cells h2 x = cells h1 x"
        using fr2 al1 da(2) by blast
      then have "cache_intact p1 h1 p1 h2" by (intro cache_intactI) simp_all
      then have c1: "cache_intact p h p' h'" using in1 eq by (auto intro: cache_intact_trans)
      have c2: "cache_allocated p' h'" using al1 n2 eq by (fastforce simp add: cache_allocated_def)
      have c3: "cache_refs (cache p') \<subseteq> cache_refs (cache p) \<union> {nxt h ..< nxt h'}"
        using cr1 n2 eq by fastforce
      have c4: "\<forall>da'. r = Inr da' \<longrightarrow>
          pair_refs da' \<subseteq> {nxt h ..< nxt h'} \<and> pair_refs da' \<inter> cache_refs (cache p') = {}"
      proof (intro allI impI)
        fix da' assume "r = Inr da'"
        then have s: "pair_refs da' \<subseteq> pair_refs da \<union> {nxt h1 ..< nxt h2}" using out2 eq by simp
        have a: "pair_refs da' \<subseteq> {nxt h ..< nxt h'}" using s da(1) n1 n2 eq by fastforce
        have b: "pair_refs da' \<inter> cache_refs (cache p') = {}" using s da(2) al1 eq by fastforce
        show "pair_refs da' \<subseteq> {nxt h ..< nxt h'} \<and> pair_refs da' \<inter> cache_refs (cache p') = {}"
          using a b by simp
      qed
      show ?thesis using n1 n2 ok1 c1 c2 c3 c4 same eq by simp
    qed
  qed
qed


lemma process_batch_props:
  assumes "stages_ok p" and "cache_allocated p h"
    and "process_batch p h ds bd ba = (r, p', h')"
    and "list_refs (bd @ ba) \<subseteq> {..< nxt h} - cache_refs (cache p)"
  shows "nxt h \<le> nxt h' \<and> stages_ok p' \<and> cache_allocated p' h' \<and> cache_intact p h p' h'
    \<and> cache_refs (cache p') \<subseteq> cache_refs (cache p) \<union> {nxt h ..< nxt h'}
    \<and> (\<forall>bd' ba'. r = Inr (bd', ba') \<longrightarrow>
          list_refs (bd' @ ba') \<subseteq> {..< nxt h'} - cache_refs (cache p'))"
  using assms
proof (induction ds arbitrary: p h bd ba)
  case Nil
  then have "r = Inr (bd, ba)" "p' = p" "h' = h" by simp_all
  then show ?case using Nil.prems by (simp add: cache_intact_def)
next
  case (Cons d ds)
  obtain r1 p1 h1 where pd: "process_data p h d = (r1, p1, h1)" by (cases "process_data p h d")
  from process_data_props [OF Cons.prems(1,2) pd] have
    n1: "nxt h \<le> nxt h1" and ok1: "stages_ok p1" and al1: "cache_allocated p1 h1"
    and in1: "cache_intact p h p1 h1"
    and cr1: "cache_refs (cache p1) \<subseteq> cache_refs (cache p) \<union> {nxt h ..< nxt h1}"
    and out1: "\<forall>da. r1 = Inr da \<longrightarrow>
          pair_refs da \<subseteq> {nxt h ..< nxt h1} \<and> pair_refs da \<inter> cache_refs (cache p1) = {}"
    by - (elim conjE, assumption)+
  have acc1: "list_refs (bd @ ba) \<subseteq> {..< nxt h1} - cache_refs (cache p1)"
    using Cons.prems(4) cr1 n1 by fastforce
  show ?case
  proof (cases r1)
    case (Inl e)
    with Cons.prems(3) pd have "r = Inl e" "p' = p1" "h' = h1" by simp_all
    then show ?thesis using n1 ok1 al1 in1 cr1 by simp
  next
    case (Inr da)
    obtain data annotation where da: "da = (data, annotation)" by (cases da)
    show ?thesis
    proof (cases "data = PyNone \<or> annotation = PyNone")
      case True
      let ?q = "p1\<lparr>logger := logger p1 @ [WarnSkipping]\<rparr>"
      from True Cons.prems(3) pd Inr da
      have rest: "process_batch ?q h1 ds bd ba = (r, p', h')" by auto
      have okq: "stages_ok ?q" using ok1 by (simp add: stages_ok_def)
      have alq: "cache_allocated ?q h1" using al1 by (simp add: cache_allocated_def)
      have accq: "list_refs (bd @ ba) \<subseteq> {..< nxt h1} - cache_refs (cache ?q)" using acc1 by simp
      from Cons.IH [OF okq alq rest accq] have
        n2: "nxt h1 \<le> nxt h'" and ok2: "stages_ok p'" and al2: "cache_allocated p' h'"
        and in2: "cache_intact ?q h1 p' h'"
        and cr2: "cache_refs (cache p') \<subseteq> cache_refs (cache ?q) \<union> {nxt h1 ..< nxt h'}"
        and out2: "\<forall>bd' ba'. r = Inr (bd', ba') \<longrightarrow>
          list_refs (bd' @ ba') \<subseteq> {..< nxt h'} - cache_refs (cache p')"
        by - (elim conjE, assumption)+
      have "cache_intact p1 h1 p' h'" using in2 by (simp add: cache_intact_def)
      then have in3: "cache_intact p h p' h'" using in1 by (auto intro: cache_intact_trans)
      have cr3: "cache_refs (cache p') \<subseteq> cache_refs (cache p) \<union> {nxt h ..< nxt h'}"
        using cr1 cr2 n1 n2 by fastforce
      show ?thesis using n1 n2 ok2 al2 in3 cr3 out2 by simp
    next
      case False
      from False Cons.prems(3) pd Inr da
      have rest: "process_batch p1 h1 ds (bd @ [data]) (ba @ [annotation]) = (r, p', h')" by auto
      from out1 Inr da have d1: "pair_refs (data, annotation) \<subseteq> {nxt h ..< nxt h1}"
        "pair_refs (data, annotation) \<inter> cache_refs (cache p1) = {}" by simp_all
      have "list_refs ((bd @ [data]) @ (ba @ [annotation]))
              = list_refs (bd @ ba) \<union> pair_refs (data, annotation)"
        by (auto simp add: list_refs_def)
      then have acc2: "list_refs ((bd @ [data]) @ (ba @ [annotation]))
              \<subseteq> {..< nxt h1} - cache_refs (cache p1)"
        using acc1 d1 by fastforce
      from Cons.IH [OF ok1 al1 rest acc2] have
        n2: "nxt h1 \<le> nxt h'" and ok2: "stages_ok p'" and al2: "cache_allocated p' h'"
        and in2: "cache_intact p1 h1 p' h'"
        and cr2: "cache_refs (cache p') \<subseteq> cache_refs (cache p1) \<union> {nxt h1 ..< nxt h'}"
        and out2: "\<forall>bd' ba'. r = Inr (bd', ba') \<longrightarrow>
          list_refs (bd' @ ba') \<subseteq> {..< nxt h'} - cache_refs (cache p')"
        by - (elim conjE, assumption)+
      have in3: "cache_intact p h p' h'" using in1 in2 by (auto intro: cache_intact_trans)
      have cr3: "cache_refs (cache p') \<subseteq> cache_refs (cache p) \<union> {nxt h ..< nxt h'}"
        using cr1 cr2 n1 n2 by fastforce
      show ?thesis using n1 n2 ok2 al2 in3 cr3 out2 by simp
    qed
  qed
qed


lemma np_array_props:
  assumes "np_array vs h = (v, h')"
  shows "v = Ref (nxt h)" and "nxt h' = Suc (nxt h)" and "\<And>x. x < nxt h \<Longrightarrow> cells h' x = cells h x"
  using assms by (auto simp add: np_array_def alloc_def)

lemma cache_intact_frame:
  assumes "cache_refs (cache p) \<subseteq> {..< n}" and "\<forall>x. x < n \<longrightarrow> cells h' x = cells h x"
  shows "cache_intact p h p h'"
  using assms by (intro cache_intactI) auto

lemma cache_intact_assign:
  assumes "a \<notin> cache_refs (cache p)"
  shows "cache_intact p h p (assign h a c)"
  using assms by (intro cache_intactI) (auto simp add: assign_def)

lemma getitem_props:
  assumes ok: "stages_ok p" and al: "cache_allocated p h"
    and run: "getitem p h i = (r, p', h')"
  shows "nxt h \<le> nxt h' \<and> stages_ok p' \<and> cache_allocated p' h' \<and> cache_intact p h p' h'
    \<and> (\<forall>x y. r = Inr (x, y) \<longrightarrow> pair_refs (x, y) \<inter> cache_refs (cache p') = {})"
proof -
  let ?q = "p\<lparr>step := i\<rparr>"
  obtain rb where gb: "get_batch_annotations p i = (rb, ?q)"
    by (simp add: get_batch_annotations_def Let_def)
  have okq: "stages_ok ?q" using ok by (simp add: stages_ok_def)
  have alq: "cache_allocated ?q h" using al by (simp add: cache_allocated_def)
  have inq: "cache_intact p h ?q h" by (simp add: cache_intact_def)
  show ?thesis
  proof (cases rb)
    case (Inl e)
    with run gb have "r = Inl e" "p' = ?q" "h' = h" by (simp_all add: getitem_def)
    then show ?thesis using okq alq inq by simp
  next
    case (Inr batch)
    obtain r2 p2 h2 where pb: "process_batch ?q h batch [] [] = (r2, p2, h2)"
      by (cases "process_batch ?q h batch [] []")
    have "list_refs ([] @ []) \<subseteq> {..< nxt h} - cache_refs (cache ?q)" by (simp add: list_refs_def)
    from process_batch_props [OF okq alq pb this] have
      n2: "nxt h \<le> nxt h2" and ok2: "stages_ok p2" and al2: "cache_allocated p2 h2"
      and in2: "cache_intact ?q h p2 h2"
      by - (elim conjE, assumption)+
    have in2': "cache_intact p h p2 h2" using in2 by (simp add: cache_intact_def)
    show ?thesis
    proof (cases r2)
      case (Inl e)
      with run gb Inr pb have "r = Inl e" "p' = p2" "h' = h2" by (simp_all add: getitem_def)
      then show ?thesis using n2 ok2 al2 in2' by simp
    next
      case r2: (Inr lists)
      obtain bd ba where lists: "lists = (bd, ba)" by (cases lists)
      obtain x h3 where a1: "np_array bd h2 = (x, h3)" by (cases "np_array bd h2")
      obtain y h4 where a2: "np_array ba h3 = (y, h4)" by (cases "np_array ba h3")
      note X = np_array_props [OF a1] and Y = np_array_props [OF a2]
      from run gb Inr pb r2 lists a1 a2 have eq: "r = Inr (x, y)" "p' = p2" "h' = h4"
        by (simp_all add: getitem_def)
      have c2: "cache_refs (cache p2) \<subseteq> {..< nxt h2}" using al2 by (simp add: cache_allocated_def)
      have fr: "\<forall>z. z < nxt h2 \<longrightarrow> cells h4 z = cells h2 z" using X(2,3) Y(3) by simp
      have "cache_intact p2 h2 p2 h4" using c2 fr by (rule cache_intact_frame)
      then have i4: "cache_intact p h p' h'" using in2' eq by (auto intro: cache_intact_trans)
      have a4: "cache_allocated p' h'" using c2 X(2) Y(2) eq by (fastforce simp add: cache_allocated_def)
      have d4: "pair_refs (x, y) \<inter> cache_refs (cache p') = {}"
        using c2 X(1,2) Y(1) eq by fastforce
      have n4: "nxt h \<le> nxt h'" using n2 X(2) Y(2) eq by simp
      show ?thesis using n4 ok2 a4 i4 d4 eq by simp
    qed
  qed
qed


lemma load_sample_use_cache:
  "load_sample p h d = (r, p1, h1) \<Longrightarrow> use_cache p1 = use_cache p"
  by (auto simp add: load_sample_def Let_def split: option.splits prod.splits sum.splits if_splits)

lemma process_data_use_cache:
  "process_data p h d = (r, p1, h1) \<Longrightarrow> use_cache p1 = use_cache p"
  by (auto simp add: process_data_def split: option.splits prod.splits sum.splits
        dest: load_sample_use_cache)

lemma process_batch_use_cache:
  "process_batch p h ds bd ba = (r, p', h') \<Longrightarrow> use_cache p' = use_cache p"
proof (induction ds arbitrary: p h bd ba)
  case Nil
  then show ?case by simp
next
  case (Cons d ds)
  obtain r1 p1 h1 where pd: "process_data p h d = (r1, p1, h1)" by (cases "process_data p h d")
  have u1: "use_cache p1 = use_cache p" using pd by (rule process_data_use_cache)
  show ?case
  proof (cases r1)
    case (Inl e)
    with Cons.prems pd u1 show ?thesis by simp
  next
    case (Inr da)
    obtain data annotation where da: "da = (data, annotation)" by (cases da)
    show ?thesis
    proof (cases "data = PyNone \<or> annotation = PyNone")
      case True
      with Cons.prems pd Inr da
      have "process_batch (p1\<lparr>logger := logger p1 @ [WarnSkipping]\<rparr>) h1 ds bd ba = (r, p', h')"
        by auto
      from Cons.IH [OF this] u1 show ?thesis by simp
    next
      case False
      with Cons.prems pd Inr da
      have "process_batch p1 h1 ds (bd @ [data]) (ba @ [annotation]) = (r, p', h')" by auto
      from Cons.IH [OF this] u1 show ?thesis by simp
    qed
  qed
qed

lemma getitem_use_cache:
  "getitem p h i = (r, p', h') \<Longrightarrow> use_cache p' = use_cache p"
  by (auto simp add: getitem_def get_batch_annotations_def Let_def
        split: prod.splits sum.splits dest: process_batch_use_cache)

lemma process_data_miss:
  assumes uc: "use_cache p" and ok: "stages_ok p"
    and miss: "map_of (cache p) (fst d) = None"
    and pre: "run_stages (data_preprocessors p) (Scalar (PyStr (fst d)), Scalar (snd d)) h
               = (Inr (data, annotation), h1)"
    and nn: "data \<noteq> PyNone" "annotation \<noteq> PyNone"
  shows "\<exists>d' a' h3 r h'.
           load_sample p h d =
             (Inr (Some (data, annotation)), p\<lparr>cache := cache p @ [(fst d, (d', a'))]\<rparr>, h3)
           \<and> pair_refs (d', a') \<subseteq> {nxt h1 ..< nxt h3}
           \<and> content_of h3 d' = content_of h1 data
           \<and> content_of h3 a' = content_of h1 annotation
           \<and> process_data p h d = (r, p\<lparr>cache := cache p @ [(fst d, (d', a'))]\<rparr>, h')
           \<and> content_of h' d' = content_of h1 data
           \<and> content_of h' a' = content_of h1 annotation"
proof -
  have "stage_ok (run_stages (data_preprocessors p))"
    using ok by (intro run_stages_ok) (simp add: stages_ok_def)
  from stage_okD(3) [OF this pre]
  have rf0: "pair_refs (data, annotation) \<subseteq> {nxt h ..< nxt h1}" by simp
  then have v: "pair_refs (data, annotation) \<subseteq> {..< nxt h1}" by auto
  from load_sample_miss [OF uc miss pre nn v] obtain d' a' h3 where
    ld: "load_sample p h d =
       (Inr (Some (data, annotation)), p\<lparr>cache := cache p @ [(fst d, (d', a'))]\<rparr>, h3)"
    and n3: "nxt h1 \<le> nxt h3" and rf3: "pair_refs (d', a') \<subseteq> {nxt h1 ..< nxt h3}"
    and cd: "content_of h3 d' = content_of h1 data"
    and ca: "content_of h3 a' = content_of h1 annotation"
    by blast
  let ?p1 = "p\<lparr>cache := cache p @ [(fst d, (d', a'))]\<rparr>"
  have ok1: "stages_ok ?p1" using ok by (simp add: stages_ok_def)
  obtain r h' where ac: "augment_and_convert ?p1 (data, annotation) h3 = (r, h')"
    by (cases "augment_and_convert ?p1 (data, annotation) h3")
  have pd: "process_data p h d = (r, ?p1, h')" using ld ac by (simp add: process_data_def)
  from augment_and_convert_props [OF ok1 ac]
  have fr: "\<forall>x. x < nxt h3 \<longrightarrow> x \<notin> pair_refs (data, annotation) \<longrightarrow> cells h' x = cells h3 x"
    by blast
  have "\<forall>x \<in> pair_refs (d', a'). cells h' x = cells h3 x"
  proof
    fix x assume x: "x \<in> pair_refs (d', a')"
    then have "nxt h1 \<le> x" "x < nxt h3" using rf3 by auto
    moreover from this v have "x \<notin> pair_refs (data, annotation)" by auto
    ultimately show "cells h' x = cells h3 x" using fr by blast
  qed
  then have "content_of h' d' = content_of h3 d'" "content_of h' a' = content_of h3 a'"
    by (auto intro: content_of_frame [where S = "pair_refs (d', a')"])
  then have "load_sample p h d = (Inr (Some (data, annotation)), ?p1, h3)
           \<and> pair_refs (d', a') \<subseteq> {nxt h1 ..< nxt h3}
           \<and> content_of h3 d' = content_of h1 data
           \<and> content_of h3 a' = content_of h1 annotation
           \<and> process_data p h d = (r, ?p1, h')
           \<and> content_of h' d' = content_of h1 data
           \<and> content_of h' a' = content_of h1 annotation"
    using ld rf3 cd ca pd by simp
  then show ?thesis by blast
qed

text \<open>
  C2. With caching enabled, well-behaved stages and every cached object allocated:
  a cache hit hands on a pair of newly allocated objects that denote what the cached
  pair denotes; a cache miss whose preprocessing gives non-null values stores a pair of
  new objects that denote the preprocessed pair, before augmentation, and still denote
  it when \<^verbatim>\<open>process_data\<close> returns; \<^verbatim>\<open>process_data\<close> and \<^verbatim>\<open>__getitem__\<close> leave every
  cache entry bound and denoting what it denoted; no object they return is a cached
  object, so an assignment to a returned object leaves the cache as it is, and the
  next call starts from the same conditions.
\<close>

theorem cached_entries_are_isolated:
  assumes uc: "use_cache p" and ok: "stages_ok p" and al: "cache_allocated p h"
  shows "(\<forall>e. map_of (cache p) (fst d) = Some e \<longrightarrow>
            (\<exists>da h1. load_sample p h d = (Inr (Some da), p, h1)
               \<and> pair_refs da \<subseteq> {nxt h ..< nxt h1}
               \<and> content_of h1 (fst da) = content_of h (fst e)
               \<and> content_of h1 (snd da) = content_of h (snd e)))
    \<and> (\<forall>data annotation h1.
          map_of (cache p) (fst d) = None
          \<and> run_stages (data_preprocessors p) (Scalar (PyStr (fst d)), Scalar (snd d)) h
               = (Inr (data, annotation), h1)
          \<and> data \<noteq> PyNone \<and> annotation \<noteq> PyNone \<longrightarrow>
            (\<exists>d' a' h3 r h'.
               load_sample p h d =
                 (Inr (Some (data, annotation)), p\<lparr>cache := cache p @ [(fst d, (d', a'))]\<rparr>, h3)
               \<and> pair_refs (d', a') \<subseteq> {nxt h1 ..< nxt h3}
               \<and> content_of h3 d' = content_of h1 data
               \<and> content_of h3 a' = content_of h1 annotation
               \<and> process_data p h d = (r, p\<lparr>cache := cache p @ [(fst d, (d', a'))]\<rparr>, h')
               \<and> content_of h' d' = content_of h1 data
               \<and> content_of h' a' = content_of h1 annotation))
    \<and> (\<forall>r p' h'. process_data p h d = (r, p', h') \<longrightarrow>
          cache_intact p h p' h'
          \<and> (\<forall>da. r = Inr da \<longrightarrow>
                (\<forall>a \<in> pair_refs da. \<forall>c. cache_intact p' h' p' (assign h' a c))))
    \<and> (\<forall>r p' h'. getitem p h i = (r, p', h') \<longrightarrow>
          use_cache p' \<and> stages_ok p' \<and> cache_allocated p' h' \<and> cache_intact p h p' h'
          \<and> (\<forall>x y. r = Inr (x, y) \<longrightarrow>
                (\<forall>a \<in> pair_refs (x, y). \<forall>c.
                   cache_allocated p' (assign h' a c) \<and> cache_intact p' h' p' (assign h' a c))))"
proof (intro conjI allI impI ballI)
  fix e assume "map_of (cache p) (fst d) = Some e"
  from load_sample_hit [OF uc this al]
  show "\<exists>da h1. load_sample p h d = (Inr (Some da), p, h1)
               \<and> pair_refs da \<subseteq> {nxt h ..< nxt h1}
               \<and> content_of h1 (fst da) = content_of h (fst e)
               \<and> content_of h1 (snd da) = content_of h (snd e)"
    by blast
next
  fix data annotation h1
  assume a: "map_of (cache p) (fst d) = None
          \<and> run_stages (data_preprocessors p) (Scalar (PyStr (fst d)), Scalar (snd d)) h
               = (Inr (data, annotation), h1)
          \<and> data \<noteq> PyNone \<and> annotation \<noteq> PyNone"
  then have m: "map_of (cache p) (fst d) = None"
    and pre: "run_stages (data_preprocessors p) (Scalar (PyStr (fst d)), Scalar (snd d)) h
               = (Inr (data, annotation), h1)"
    and nn: "data \<noteq> PyNone" "annotation \<noteq> PyNone"
    by simp_all
  show "\<exists>d' a' h3 r h'.
               load_sample p h d =
                 (Inr (Some (data, annotation)), p\<lparr>cache := cache p @ [(fst d, (d', a'))]\<rparr>, h3)
               \<and> pair_refs (d', a') \<subseteq> {nxt h1 ..< nxt h3}
               \<and> content_of h3 d' = content_of h1 data
               \<and> content_of h3 a' = content_of h1 annotation
               \<and> process_data p h d = (r, p\<lparr>cache := cache p @ [(fst d, (d', a'))]\<rparr>, h')
               \<and> content_of h' d' = content_of h1 data
               \<and> content_of h' a' = content_of h1 annotation"
    by (rule process_data_miss [OF uc ok m pre nn])
next
  fix r p' h'
  assume pd: "process_data p h d = (r, p', h')"
  from process_data_props [OF ok al pd] have
    in1: "cache_intact p h p' h'"
    and out: "\<forall>da. r = Inr da \<longrightarrow>
          pair_refs da \<subseteq> {nxt h ..< nxt h'} \<and> pair_refs da \<inter> cache_refs (cache p') = {}"
    by - (elim conjE, assumption)+
  show "cache_intact p h p' h'" by (rule in1)
  fix da a c
  assume "r = Inr da" and "a \<in> pair_refs da"
  then have "a \<notin> cache_refs (cache p')" using out by blast
  then show "cache_intact p' h' p' (assign h' a c)" by (rule cache_intact_assign)
next
  fix r p' h'
  assume gi: "getitem p h i = (r, p', h')"
  from getitem_props [OF ok al gi] have
    ok': "stages_ok p'" and al': "cache_allocated p' h'" and in1: "cache_intact p h p' h'"
    and out: "\<forall>x y. r = Inr (x, y) \<longrightarrow> pair_refs (x, y) \<inter> cache_refs (cache p') = {}"
    by - (elim conjE, assumption)+
  show "use_cache p'" using getitem_use_cache [OF gi] uc by simp
  show "stages_ok p'" by (rule ok')
  show "cache_allocated p' h'" by (rule al')
  show "cache_intact p h p' h'" by (rule in1)
  fix x y a c
  assume "r = Inr (x, y)" and "a \<in> pair_refs (x, y)"
  then have "a \<notin> cache_refs (cache p')" using out by blast
  then show "cache_intact p' h' p' (assign h' a c)" by (rule cache_intact_assign)
  show "cache_allocated p' (assign h' a c)"
    using al' by (simp add: cache_allocated_def assign_def)
qed

lemma array_reader_ok: "stage_ok array_reader"
  by (rule stage_okI) (auto simp add: array_reader_def alloc_def)

lemma flip_in_place_ok: "stage_ok flip_in_place"
  by (rule stage_okI) (auto simp add: flip_in_place_def assign_def split: val.splits)

lemma caching_provider_ok: "stages_ok caching_provider"
  by (simp add: stages_ok_def caching_provider_def array_reader_ok flip_in_place_ok)

lemmas eval_defs = getitem_def get_batch_annotations_def py_range_def py_getitem_def
  process_data_def load_sample_def augment_and_convert_def is_ndarray_def annotation_is_plain_def
  numpy_method_def deepcopy_def deepcopy_pair_def alloc_def np_array_def assign_def
  caching_provider_def array_reader_def flip_in_place_def empty_heap_def Let_def

lemma first_batch:
  "cache (fst (snd (getitem caching_provider empty_heap 0))) = [(''a.bin'', (Ref 1, Scalar (PyStr ''cat'')))]"
  "cells (snd (snd (getitem caching_provider empty_heap 0))) 0 = (NdArray, [PyInt (- 1), PyInt (- 2), PyInt (- 3)])"
  "cells (snd (snd (getitem caching_provider empty_heap 0))) 1 = (NdArray, [PyInt 1, PyInt 2, PyInt 3])"
  "fst (getitem caching_provider empty_heap 0) = Inr (Ref 2, Ref 3)"
  by (simp_all add: eval_defs)


theorem cached_entries_are_isolated_witness:
  "use_cache caching_provider
   \<and> fst (getitem caching_provider empty_heap 0) = Inr (Ref 2, Ref 3)
   \<and> cache (fst (snd (getitem caching_provider empty_heap 0)))
        = [(''a.bin'', (Ref 1, Scalar (PyStr ''cat'')))]
   \<and> cells (snd (snd (getitem caching_provider empty_heap 0))) 0
        = (NdArray, [PyInt (- 1), PyInt (- 2), PyInt (- 3)])
   \<and> cells (snd (snd (getitem caching_provider empty_heap 0))) 1
        = (NdArray, [PyInt 1, PyInt 2, PyInt 3])
   \<and> content_of
        (snd (snd (getitem (fst (snd (getitem caching_provider empty_heap 0)))
                     (assign (snd (snd (getitem caching_provider empty_heap 0))) 2 (NdArray, []))
                     0)))
        (Ref 1)
        = ObjectContent (NdArray, [PyInt 1, PyInt 2, PyInt 3])"
proof -
  let ?g1 = "getitem caching_provider empty_heap 0"
  let ?p1 = "fst (snd ?g1)" and ?h1 = "snd (snd ?g1)"
  let ?w = "assign ?h1 2 (NdArray, [])"
  let ?g2 = "getitem ?p1 ?w 0"
  have uc: "use_cache caching_provider" by (simp add: caching_provider_def)
  have al: "cache_allocated caching_provider empty_heap"
    by (simp add: cache_allocated_def cache_refs_def caching_provider_def)
  have g1: "getitem caching_provider empty_heap 0 = (fst ?g1, ?p1, ?h1)" by simp
  have r1: "fst ?g1 = Inr (Ref 2, Ref 3)" by (rule first_batch(4))
  have in2: "2 \<in> pair_refs (Ref 2, Ref 3)" by simp
  note first = cached_entries_are_isolated [OF uc caching_provider_ok al,
      of "(''a.bin'', PyStr ''cat'')" 0, THEN conjunct2, THEN conjunct2, THEN conjunct2,
      rule_format, OF g1]
  have uc1: "use_cache ?p1" by (rule first [THEN conjunct1])
  have ok1: "stages_ok ?p1" by (rule first [THEN conjunct2, THEN conjunct1])
  note after = first [THEN conjunct2, THEN conjunct2, THEN conjunct2, THEN conjunct2,
      rule_format, OF r1 in2]
  have alw: "cache_allocated ?p1 ?w" by (rule after [THEN conjunct1])
  have inw: "cache_intact ?p1 ?h1 ?p1 ?w" by (rule after [THEN conjunct2])
  have g2: "getitem ?p1 ?w 0 = (fst ?g2, fst (snd ?g2), snd (snd ?g2))" by simp
  note again = cached_entries_are_isolated [OF uc1 ok1 alw,
      of "(''a.bin'', PyStr ''cat'')" 0, THEN conjunct2, THEN conjunct2, THEN conjunct2,
      rule_format, OF g2]
  have second: "cache_intact ?p1 ?w (fst (snd ?g2)) (snd (snd ?g2))"
    by (rule again [THEN conjunct2, THEN conjunct2, THEN conjunct2, THEN conjunct1])
  have entry: "map_of (cache ?p1) ''a.bin'' = Some (Ref 1, Scalar (PyStr ''cat''))"
    by (simp add: first_batch(1))
  have "content_of (snd (snd ?g2)) (Ref 1) = content_of ?w (Ref 1)"
    using second [unfolded cache_intact_def, rule_format, OF entry] by simp
  also have "\<dots> = content_of ?h1 (Ref 1)"
    using inw [unfolded cache_intact_def, rule_format, OF entry] by simp
  also have "\<dots> = ObjectContent (NdArray, [PyInt 1, PyInt 2, PyInt 3])"
    using first_batch(3) by simp
  finally show ?thesis using uc first_batch by simp
qed

subsection \<open>Splitting\<close>

lemma round_half_even_le:
  assumes "x < of_int N"
  shows "round_half_even x \<le> N"
proof -
  have "\<lfloor>x\<rfloor> < N" using assms by (simp add: floor_less_iff)
  moreover have "round_half_even x \<le> \<lfloor>x\<rfloor> + 1" by (simp add: round_half_even_def Let_def)
  ultimately show ?thesis by simp
qed

lemma round_half_even_nonneg: "0 \<le> x \<Longrightarrow> 0 \<le> round_half_even x"
  by (auto simp add: round_half_even_def Let_def)

lemma round_quotient_nonneg: "0 \<le> round_quotient a b"
proof -
  have "0 \<le> (of_nat a / of_nat b :: rat) / pow2 k" for k
    using pow2_pos [of k] by simp
  then show ?thesis
    using pow2_pos by (simp add: round_quotient_def Let_def round_half_even_nonneg less_imp_le)
qed

lemma round_quotient_below:
  assumes a: "0 < a" and b: "0 < b" and lt: "of_nat a / of_nat b < (of_nat n :: rat)" and n: "n < 2 ^ 53"
  shows "round_quotient a b \<le> of_nat n"
proof -
  let ?q = "of_nat a / of_nat b :: rat"
  let ?e = "quot_exponent a b"
  let ?ex = "max (?e - 52) (- 1074)"
  have "(of_nat n :: rat) < of_nat (2 ^ 53)" using n by (simp only: of_nat_less_iff)
  then have "pow2 ?e < pow2 53"
    using quot_exponent_bounds(1) [OF a b] lt by (simp add: pow2_def)
  then have "?e \<le> 52" using pow2_less_cancel [of ?e 53] by simp
  then have ex0: "?ex \<le> 0" by simp
  define m where "m = nat (- ?ex)"
  have ex: "?ex = - int m" using ex0 by (simp add: m_def)
  have p: "pow2 (- int m) = 1 / 2 ^ m" by (simp add: pow2_def)
  have "?q * 2 ^ m < of_nat n * 2 ^ m"
    using lt by (intro mult_strict_right_mono) simp_all
  then have "?q / pow2 ?ex < of_int (int n * 2 ^ m)"
    by (simp add: ex p)
  then have "round_half_even (?q / pow2 ?ex) \<le> int n * 2 ^ m" by (rule round_half_even_le)
  then have "(of_int (round_half_even (?q / pow2 ?ex)) :: rat) \<le> of_int (int n * 2 ^ m)"
    by (simp only: of_int_le_iff)
  then have "of_int (round_half_even (?q / pow2 ?ex)) * pow2 ?ex \<le> of_int (int n * 2 ^ m) * pow2 ?ex"
    using pow2_pos [of ?ex] by (intro mult_right_mono) simp_all
  also have "of_int (int n * 2 ^ m) * pow2 ?ex = of_nat n" by (simp add: ex p)
  finally show ?thesis by (simp add: round_quotient_def Let_def)
qed

lemma quotient_of_pos:
  assumes "0 < q" and "quotient_of q = (a, b)"
  shows "0 < a" and "0 < b" and "q = of_int a / of_int b"
proof -
  show b: "0 < b" using assms(2) by (rule quotient_of_denom_pos)
  show q: "q = of_int a / of_int b" using assms(2) by (rule quotient_of_div)
  show "0 < a" using assms(1) b q by (simp add: zero_less_divide_iff)
qed

lemma round_rat_of_nat:
  assumes "n < 2 ^ 53"
  shows "round_rat (of_nat n) = of_nat n"
proof (cases "n = 0")
  case True
  then show ?thesis by (simp add: round_rat_def)
next
  case False
  then have pos: "0 < n" by simp
  have "quotient_of (of_nat n :: rat) = (int n, 1)"
    using quotient_of_int [of "int n"] by simp
  moreover have "round_quotient n 1 = of_nat n"
    using round_quotient_exact [OF pos _ assms, of 1] by simp
  ultimately show ?thesis using pos by (simp add: round_rat_def)
qed

lemma round_rat_bounds:
  assumes q: "0 \<le> q" and lt: "q < of_nat n" and n: "n < 2 ^ 53"
  shows "0 \<le> round_rat q" and "round_rat q \<le> of_nat n"
proof -
  have "0 \<le> round_rat q \<and> round_rat q \<le> of_nat n"
  proof (cases "q = 0")
    case True
    then show ?thesis by (simp add: round_rat_def)
  next
    case False
    with q have pos: "0 < q" by simp
    obtain a b where ab: "quotient_of q = (a, b)" by (cases "quotient_of q")
    note Q = quotient_of_pos [OF pos ab]
    have qe: "q = of_nat (nat a) / of_nat (nat b)" using Q by simp
    have rr: "round_rat q = round_quotient (nat a) (nat b)"
      using pos ab by (simp add: round_rat_def)
    have "round_quotient (nat a) (nat b) \<le> of_nat n"
    proof (rule round_quotient_below)
      show "0 < nat a" "0 < nat b" using Q(1,2) by simp_all
      show "of_nat (nat a) / of_nat (nat b) < (of_nat n :: rat)" using lt by (simp only: qe [symmetric])
      show "n < 2 ^ 53" by (rule n)
    qed
    then show ?thesis using rr round_quotient_nonneg by simp
  qed
  then show "0 \<le> round_rat q" and "round_rat q \<le> of_nat n" by simp_all
qed

lemma py_int_mul_float_returns:
  assumes r: "0 < ratio" "ratio < 1" and n: "n < 2 ^ 53"
  shows "\<exists>k. py_int_mul_float (int n) ratio = Inr k \<and> 0 \<le> k \<and> k \<le> int n"
proof -
  have xn: "round_rat (of_int (int n)) = of_nat n" using round_rat_of_nat [OF n] by simp
  have big: "(of_nat n :: rat) < pow2 1024"
  proof -
    have "(of_nat n :: rat) < of_nat (2 ^ 53)" using n by (simp only: of_nat_less_iff)
    then show ?thesis by (simp add: pow2_def)
  qed
  let ?y = "round_rat (of_nat n * ratio)"
  have y: "0 \<le> ?y \<and> ?y \<le> of_nat n"
  proof (cases "n = 0")
    case True
    then show ?thesis by (simp add: round_rat_def)
  next
    case False
    then have "(0::rat) < of_nat n" by simp
    then have "of_nat n * ratio < of_nat n * 1" using r(2) by (intro mult_strict_left_mono)
    then have "of_nat n * ratio < of_nat n" by simp
    moreover have "0 \<le> of_nat n * ratio" using r(1) by simp
    ultimately show ?thesis using round_rat_bounds [OF _ _ n] by blast
  qed
  have "\<not> pow2 1024 \<le> \<bar>?y\<bar>" using y big by simp
  moreover have "\<not> pow2 1024 \<le> \<bar>of_nat n :: rat\<bar>" using big by simp
  ultimately have res: "py_int_mul_float (int n) ratio = Inr \<lfloor>?y\<rfloor>"
    using y by (simp add: py_int_mul_float_def Let_def xn del: of_int_of_nat_eq)
  have "0 \<le> \<lfloor>?y\<rfloor>" using y by simp
  moreover have "\<lfloor>?y\<rfloor> \<le> int n" using y by (simp add: floor_le_iff)
  ultimately show ?thesis using res by blast
qed

lemma deepcopy_memo_props:
  assumes m: "memo_ok n0 memo h" and n: "n0 \<le> nxt h" and v: "val_refs v \<subseteq> {..< n0}"
    and run: "deepcopy_memo memo v h = (v', memo', h')"
  shows "memo_ok n0 memo' h' \<and> nxt h \<le> nxt h' \<and> (\<forall>x. x < nxt h \<longrightarrow> cells h' x = cells h x)
    \<and> val_refs v' \<subseteq> {n0 ..< nxt h'} \<and> content_of h' v' = content_of h v"
proof (cases v)
  case PyNone
  with run m show ?thesis by auto
next
  case (Scalar s)
  with run m show ?thesis by auto
next
  case (Ref a)
  then have a: "a < n0" using v by simp
  show ?thesis
  proof (cases "map_of memo a")
    case (Some b)
    with run Ref have eq: "v' = Ref b" "memo' = memo" "h' = h" by simp_all
    from map_of_SomeD [OF Some] m have "n0 \<le> b" "b < nxt h" "cells h b = cells h a"
      unfolding memo_ok_def by blast+
    then show ?thesis using eq m Ref by simp
  next
    case None
    with run Ref have eq: "v' = Ref (nxt h)" "memo' = (a, nxt h) # memo"
      "h' = h\<lparr>cells := (cells h)(nxt h := cells h a), nxt := Suc (nxt h)\<rparr>"
      by (simp_all add: alloc_def)
    have "memo_ok n0 memo' h'"
      unfolding memo_ok_def
    proof (intro allI impI)
      fix x y assume "(x, y) \<in> set memo'"
      then consider "x = a \<and> y = nxt h" | "(x, y) \<in> set memo" using eq(2) by auto
      then show "x < n0 \<and> n0 \<le> y \<and> y < nxt h' \<and> cells h' y = cells h' x"
      proof cases
        case 1
        then show ?thesis using a n eq(3) by auto
      next
        case 2
        with m have "x < n0" "n0 \<le> y" "y < nxt h" "cells h y = cells h x"
          unfolding memo_ok_def by blast+
        then show ?thesis using n eq(3) by auto
      qed
    qed
    then show ?thesis using eq Ref a n by auto
  qed
qed

lemma copy_of_frame:
  assumes "list_all2 (copy_of h1 h2) c c'" and "cache_refs c \<subseteq> {..< n0}"
    and "\<forall>x. x < n0 \<longrightarrow> cells h1 x = cells h x"
  shows "list_all2 (copy_of h h2) c c'"
  using assms(1)
proof (rule list.rel_mono_strong)
  fix e e' assume e: "e \<in> set c" and c: "copy_of h1 h2 e e'"
  have "pair_refs (snd e) \<subseteq> {..< n0}" using e assms(2) by (auto simp add: cache_refs_def)
  then have r: "val_refs (fst (snd e)) \<subseteq> {..< n0}" "val_refs (snd (snd e)) \<subseteq> {..< n0}"
    by (cases "snd e"; simp)+
  have "content_of h1 (fst (snd e)) = content_of h (fst (snd e))"
    using r(1) assms(3) by (cases "fst (snd e)") auto
  moreover have "content_of h1 (snd (snd e)) = content_of h (snd (snd e))"
    using r(2) assms(3) by (cases "snd (snd e)") auto
  ultimately show "copy_of h h2 e e'" using c by (simp add: copy_of_def)
qed

lemma copy_of_frame_target:
  assumes "list_all2 (copy_of h h1) c c'" and "cache_refs c' \<subseteq> {..< n1}"
    and "\<forall>x. x < n1 \<longrightarrow> cells h2 x = cells h1 x"
  shows "list_all2 (copy_of h h2) c c'"
  using assms(1)
proof (rule list.rel_mono_strong)
  fix e e' assume e: "e' \<in> set c'" and c: "copy_of h h1 e e'"
  have "pair_refs (snd e') \<subseteq> {..< n1}" using e assms(2) by (auto simp add: cache_refs_def)
  then have r: "val_refs (fst (snd e')) \<subseteq> {..< n1}" "val_refs (snd (snd e')) \<subseteq> {..< n1}"
    by (cases "snd e'"; simp)+
  have "content_of h2 (fst (snd e')) = content_of h1 (fst (snd e'))"
    using r(1) assms(3) by (cases "fst (snd e')") auto
  moreover have "content_of h2 (snd (snd e')) = content_of h1 (snd (snd e'))"
    using r(2) assms(3) by (cases "snd (snd e')") auto
  ultimately show "copy_of h h2 e e'" using c by (simp add: copy_of_def)
qed


lemma cache_refs_Cons: "cache_refs ((k, (d, a)) # c) = val_refs d \<union> val_refs a \<union> cache_refs c"
  by (auto simp add: cache_refs_def)

lemma content_of_below:
  assumes "val_refs v \<subseteq> {..< n}" and "\<forall>x. x < n \<longrightarrow> cells h' x = cells h x"
  shows "content_of h' v = content_of h v"
  using assms by (cases v) auto

lemma deepcopy_cache_props:
  assumes "memo_ok n0 memo h" and "n0 \<le> nxt h" and "cache_refs c \<subseteq> {..< n0}"
    and "deepcopy_cache memo c h = (c', memo', h')"
  shows "memo_ok n0 memo' h' \<and> nxt h \<le> nxt h' \<and> (\<forall>x. x < nxt h \<longrightarrow> cells h' x = cells h x)
    \<and> cache_refs c' \<subseteq> {n0 ..< nxt h'} \<and> list_all2 (copy_of h h') c c'"
  using assms
proof (induction c arbitrary: memo h c' memo' h')
  case Nil
  then show ?case by (simp add: cache_refs_def)
next
  case (Cons e c)
  obtain k d a where e: "e = (k, (d, a))" by (cases e) auto
  obtain d' m1 h1 where c1: "deepcopy_memo memo d h = (d', m1, h1)" by (cases "deepcopy_memo memo d h")
  obtain a' m2 h2 where c2: "deepcopy_memo m1 a h1 = (a', m2, h2)" by (cases "deepcopy_memo m1 a h1")
  obtain rest m3 h3 where c3: "deepcopy_cache m2 c h2 = (rest, m3, h3)" by (cases "deepcopy_cache m2 c h2")
  from Cons.prems(4) e c1 c2 c3 have eq: "c' = (k, (d', a')) # rest" "memo' = m3" "h' = h3"
    by simp_all
  have refs: "val_refs d \<subseteq> {..< n0}" "val_refs a \<subseteq> {..< n0}" "cache_refs c \<subseteq> {..< n0}"
    using Cons.prems(3) e by (simp_all add: cache_refs_Cons)
  from deepcopy_memo_props [OF Cons.prems(1,2) refs(1) c1] have
    M1: "memo_ok n0 m1 h1" and N1: "nxt h \<le> nxt h1"
    and F1: "\<forall>x. x < nxt h \<longrightarrow> cells h1 x = cells h x"
    and R1: "val_refs d' \<subseteq> {n0 ..< nxt h1}" and C1: "content_of h1 d' = content_of h d"
    by - (elim conjE, assumption)+
  have n1: "n0 \<le> nxt h1" using Cons.prems(2) N1 by simp
  from deepcopy_memo_props [OF M1 n1 refs(2) c2] have
    M2: "memo_ok n0 m2 h2" and N2: "nxt h1 \<le> nxt h2"
    and F2: "\<forall>x. x < nxt h1 \<longrightarrow> cells h2 x = cells h1 x"
    and R2: "val_refs a' \<subseteq> {n0 ..< nxt h2}" and C2: "content_of h2 a' = content_of h1 a"
    by - (elim conjE, assumption)+
  have n2: "n0 \<le> nxt h2" using n1 N2 by simp
  from Cons.IH [OF M2 n2 refs(3) c3] have
    M3: "memo_ok n0 m3 h3" and N3: "nxt h2 \<le> nxt h3"
    and F3: "\<forall>x. x < nxt h2 \<longrightarrow> cells h3 x = cells h2 x"
    and R3: "cache_refs rest \<subseteq> {n0 ..< nxt h3}" and C3: "list_all2 (copy_of h2 h3) c rest"
    by - (elim conjE, assumption)+
  have F02: "\<forall>x. x < n0 \<longrightarrow> cells h2 x = cells h x"
    using F1 F2 Cons.prems(2) N1 by (metis less_le_trans)
  have L: "list_all2 (copy_of h h3) c rest" using C3 refs(3) F02 by (rule copy_of_frame)
  have d3: "content_of h3 d' = content_of h d"
  proof -
    have "val_refs d' \<subseteq> {..< nxt h1}" using R1 by auto
    moreover have "\<forall>x. x < nxt h1 \<longrightarrow> cells h3 x = cells h1 x"
      using F2 F3 N2 by (metis less_le_trans)
    ultimately have "content_of h3 d' = content_of h1 d'" by (rule content_of_below)
    then show ?thesis using C1 by simp
  qed
  have a3: "content_of h3 a' = content_of h a"
  proof -
    have "val_refs a' \<subseteq> {..< nxt h2}" using R2 by auto
    then have "content_of h3 a' = content_of h2 a'" using F3 by (rule content_of_below)
    moreover have "content_of h1 a = content_of h a"
      using refs(2) F1 Cons.prems(2) by (intro content_of_below [of a n0]) auto
    ultimately show ?thesis using C2 by simp
  qed
  have E: "copy_of h h3 e (k, (d', a'))" using d3 a3 e by (simp add: copy_of_def)
  have F: "\<forall>x. x < nxt h \<longrightarrow> cells h3 x = cells h x"
    using F1 F2 F3 N1 N2 by (metis less_le_trans)
  have R: "cache_refs c' \<subseteq> {n0 ..< nxt h3}"
    using R1 R2 R3 N2 N3 by (fastforce simp add: eq cache_refs_Cons)
  show ?case using M3 N1 N2 N3 F R E L by (simp add: eq)
qed

lemma deepcopy_provider_props:
  assumes al: "cache_refs (cache p) \<subseteq> {..< nxt h}" and run: "deepcopy_provider p h = (q, h')"
  shows "q = p\<lparr>cache := cache q\<rparr>" and "nxt h \<le> nxt h'"
    and "\<forall>x. x < nxt h \<longrightarrow> cells h' x = cells h x"
    and "cache_refs (cache q) \<subseteq> {nxt h ..< nxt h'}"
    and "list_all2 (copy_of h h') (cache p) (cache q)"
proof -
  obtain c memo hh where dc: "deepcopy_cache [] (cache p) h = (c, memo, hh)"
    by (cases "deepcopy_cache [] (cache p) h")
  with run have eq: "q = p\<lparr>cache := c\<rparr>" "h' = hh" by (simp_all add: deepcopy_provider_def)
  have m: "memo_ok (nxt h) [] h" by (simp add: memo_ok_def)
  from deepcopy_cache_props [OF m _ al dc] have
    "nxt h \<le> nxt hh" "\<forall>x. x < nxt h \<longrightarrow> cells hh x = cells h x"
    "cache_refs c \<subseteq> {nxt h ..< nxt hh}" "list_all2 (copy_of h hh) (cache p) c"
    by simp_all
  then show "q = p\<lparr>cache := cache q\<rparr>" and "nxt h \<le> nxt h'"
    and "\<forall>x. x < nxt h \<longrightarrow> cells h' x = cells h x"
    and "cache_refs (cache q) \<subseteq> {nxt h ..< nxt h'}"
    and "list_all2 (copy_of h h') (cache p) (cache q)"
    using eq by simp_all
qed

lemma slice_bound_within:
  "0 \<le> k \<Longrightarrow> k \<le> int (length xs) \<Longrightarrow> slice_bound xs k = nat k"
  by (simp add: slice_bound_def)


text \<open>
  C9 (as the code has it).  For a ratio strictly between 0 and 1 and a dataset of fewer than
  \<^verbatim>\<open>2 ^ 53\<close> rows, \<^verbatim>\<open>split\<close> returns two providers \<^verbatim>\<open>A\<close> and \<^verbatim>\<open>B\<close>: the product
  \<^verbatim>\<open>len(dataset) * ratio\<close>, rounded to a double and truncated, is a position \<^verbatim>\<open>k\<close> within the
  dataset; \<^verbatim>\<open>A\<close> holds the first \<^verbatim>\<open>k\<close> rows and \<^verbatim>\<open>B\<close> the remaining ones of the (possibly
  shuffled) dataset, so the two lists concatenate to that dataset, their lengths add up to the
  original length and together they hold each row as often as the original does.  The two
  lists have no row in common when the original dataset has no repeated row.  Every other
  attribute of \<^verbatim>\<open>A\<close> and \<^verbatim>\<open>B\<close> equals the original's, and the cache of each is a copy made of
  fresh objects with the contents of the original's objects, sharing no object with the
  original or with the other provider.  The original provider keeps its configuration and,
  when shuffling was asked for, the shuffled dataset.
\<close>

theorem split_partitions_dataset:
  assumes r: "0 < ratio" "ratio < 1" and n: "length (dataset p) < 2 ^ 53"
    and perm: "mset (rng (dataset p)) = mset (dataset p)"
    and al: "cache_allocated p h"
  shows "\<exists>k A B h'.
      py_int_mul_float (int (length (dataset p))) ratio = Inr k
    \<and> 0 \<le> k \<and> k \<le> int (length (dataset p))
    \<and> split rng p h ratio sh =
        (Inr (A, B), p\<lparr>dataset := (if sh then rng (dataset p) else dataset p)\<rparr>, h')
    \<and> A = p\<lparr>dataset := take (nat k) (if sh then rng (dataset p) else dataset p), cache := cache A\<rparr>
    \<and> B = p\<lparr>dataset := drop (nat k) (if sh then rng (dataset p) else dataset p), cache := cache B\<rparr>
    \<and> dataset A @ dataset B = (if sh then rng (dataset p) else dataset p)
    \<and> length (dataset A) + length (dataset B) = length (dataset p)
    \<and> mset (dataset A) + mset (dataset B) = mset (dataset p)
    \<and> (distinct (dataset p) \<longrightarrow> set (dataset A) \<inter> set (dataset B) = {})
    \<and> list_all2 (copy_of h h') (cache p) (cache A)
    \<and> list_all2 (copy_of h h') (cache p) (cache B)
    \<and> cache_refs (cache A) \<inter> cache_refs (cache p) = {}
    \<and> cache_refs (cache B) \<inter> cache_refs (cache p) = {}
    \<and> cache_refs (cache A) \<inter> cache_refs (cache B) = {}"
proof -
  let ?D = "if sh then rng (dataset p) else dataset p"
  let ?p1 = "p\<lparr>dataset := ?D\<rparr>"
  have mD: "mset ?D = mset (dataset p)" using perm by simp
  then have lD: "length ?D = length (dataset p)" by (metis size_mset)
  from py_int_mul_float_returns [OF r n] obtain k where
    k: "py_int_mul_float (int (length (dataset p))) ratio = Inr k" "0 \<le> k" "k \<le> int (length (dataset p))"
    by blast
  have c0: "cache_refs (cache ?p1) \<subseteq> {..< nxt h}" using al by (simp add: cache_allocated_def)
  obtain T h1 where t: "deepcopy_provider ?p1 h = (T, h1)" by (cases "deepcopy_provider ?p1 h")
  note TP = deepcopy_provider_props [OF c0 t]
  have c1: "cache_refs (cache ?p1) \<subseteq> {..< nxt h1}" using c0 TP(2) by auto
  obtain V h2 where v: "deepcopy_provider ?p1 h1 = (V, h2)" by (cases "deepcopy_provider ?p1 h1")
  note VP = deepcopy_provider_props [OF c1 v]
  let ?A = "T\<lparr>dataset := take (nat k) ?D\<rparr>" and ?B = "V\<lparr>dataset := drop (nat k) ?D\<rparr>"
  have sb: "slice_bound ?D k = nat k" using k(2,3) lD by (intro slice_bound_within) simp_all
  have p1: "(if sh then p\<lparr>dataset := rng (dataset p)\<rparr> else p) = ?p1" by simp
  have res: "split rng p h ratio sh = (Inr (?A, ?B), ?p1, h2)"
    unfolding split_def p1 Let_def using t v k(1) lD sb
    by (simp add: slice_to_def slice_from_def)
  have A: "?A = p\<lparr>dataset := take (nat k) ?D, cache := cache ?A\<rparr>"
    by (subst TP(1)) simp
  have B: "?B = p\<lparr>dataset := drop (nat k) ?D, cache := cache ?B\<rparr>"
    by (subst VP(1)) simp
  have app: "dataset ?A @ dataset ?B = ?D" by simp
  have len: "length (dataset ?A) + length (dataset ?B) = length (dataset p)"
    using lD k(2,3) by simp
  have ms: "mset (dataset ?A) + mset (dataset ?B) = mset (dataset p)"
  proof -
    have "mset (take (nat k) ?D) + mset (drop (nat k) ?D) = mset ?D"
      using mset_append [of "take (nat k) ?D" "drop (nat k) ?D"] by simp
    then show ?thesis using mD by simp
  qed
  have dj: "distinct (dataset p) \<longrightarrow> set (dataset ?A) \<inter> set (dataset ?B) = {}"
  proof
    assume "distinct (dataset p)"
    then have "distinct ?D" using mset_eq_imp_distinct_iff [OF mD] by simp
    then show "set (dataset ?A) \<inter> set (dataset ?B) = {}"
      by (simp add: set_take_disj_set_drop_if_distinct)
  qed
  have cA: "list_all2 (copy_of h h2) (cache p) (cache ?A)"
  proof -
    have "list_all2 (copy_of h h1) (cache p) (cache T)" using TP(5) by simp
    moreover have "cache_refs (cache T) \<subseteq> {..< nxt h1}" using TP(4) by auto
    ultimately have "list_all2 (copy_of h h2) (cache p) (cache T)"
      using VP(3) by (rule copy_of_frame_target)
    then show ?thesis by simp
  qed
  have cB: "list_all2 (copy_of h h2) (cache p) (cache ?B)"
  proof -
    have "list_all2 (copy_of h1 h2) (cache p) (cache V)" using VP(5) by simp
    moreover have "cache_refs (cache p) \<subseteq> {..< nxt h}" using c0 by simp
    ultimately have "list_all2 (copy_of h h2) (cache p) (cache V)"
      using TP(3) by (rule copy_of_frame)
    then show ?thesis by simp
  qed
  have d1: "cache_refs (cache ?A) \<inter> cache_refs (cache p) = {}" using TP(4) c0 by fastforce
  have d2: "cache_refs (cache ?B) \<inter> cache_refs (cache p) = {}" using VP(4) c0 TP(2) by fastforce
  have d3: "cache_refs (cache ?A) \<inter> cache_refs (cache ?B) = {}" using TP(4) VP(4) by fastforce
  show ?thesis
    apply (rule exI [of _ k], rule exI [of _ ?A], rule exI [of _ ?B], rule exI [of _ h2])
    using k res A B app len ms dj cA cB d1 d2 d3 by (intro conjI) assumption+
qed

lemma half_of_two: "py_int_mul_float 2 (1 / 2) = Inr 1"
proof -
  have a: "round_rat 2 = 2" using round_rat_of_nat [of 2] by simp
  have b: "round_rat 1 = 1" using round_rat_of_nat [of 1] by simp
  show ?thesis by (simp add: py_int_mul_float_def Let_def a b pow2_def)
qed

lemmas split_eval = split_def deepcopy_provider_def alloc_def slice_to_def slice_from_def
  slice_bound_def splitting_provider_def one_array_heap_def empty_heap_def Let_def

lemma split_twice:
  "fst (split rev (splitting_provider rows_twice) one_array_heap (1 / 2) False) =
     Inr ((splitting_provider rows_twice)
            \<lparr>dataset := [(''a.bin'', PyStr ''cat'')], cache := [(''a.bin'', (Ref 1, Scalar (PyStr ''cat'')))]\<rparr>,
          (splitting_provider rows_twice)
            \<lparr>dataset := [(''a.bin'', PyStr ''cat'')], cache := [(''a.bin'', (Ref 2, Scalar (PyStr ''cat'')))]\<rparr>)"
  by (simp add: split_eval rows_twice_def half_of_two)

lemma split_two:
  "fst (split rev (splitting_provider rows2) one_array_heap (1 / 2) True) =
     Inr ((splitting_provider rows2)
            \<lparr>dataset := [(''b.bin'', PyStr ''dog'')], cache := [(''a.bin'', (Ref 1, Scalar (PyStr ''cat'')))]\<rparr>,
          (splitting_provider rows2)
            \<lparr>dataset := [(''a.bin'', PyStr ''cat'')],
             cache := [(''a.bin'', (Ref 2, Scalar (PyStr ''cat'')))]\<rparr>)"
  by (simp add: split_eval rows2_def half_of_two)


theorem split_partitions_dataset_witness:
  "(0::rat) < 1 / 2 \<and> (1 / 2 :: rat) < 1
   \<and> length (dataset (splitting_provider rows2)) < 2 ^ 53
   \<and> mset (rev (dataset (splitting_provider rows2))) = mset (dataset (splitting_provider rows2))
   \<and> fst (split rev (splitting_provider rows2) one_array_heap (1 / 2) True) =
        Inr ((splitting_provider rows2)
               \<lparr>dataset := [(''b.bin'', PyStr ''dog'')],
                cache := [(''a.bin'', (Ref 1, Scalar (PyStr ''cat'')))]\<rparr>,
             (splitting_provider rows2)
               \<lparr>dataset := [(''a.bin'', PyStr ''cat'')],
                cache := [(''a.bin'', (Ref 2, Scalar (PyStr ''cat'')))]\<rparr>)
   \<and> (case fst (split rev (splitting_provider rows2) one_array_heap (1 / 2) True) of
         Inl e \<Rightarrow> False
       | Inr (A, B) \<Rightarrow> dataset A @ dataset B = [(''b.bin'', PyStr ''dog''), (''a.bin'', PyStr ''cat'')])"
proof -
  let ?P = "splitting_provider rows2"
  have r: "(0::rat) < 1 / 2" "(1 / 2 :: rat) < 1" by simp_all
  have n: "length (dataset ?P) < 2 ^ 53" by (simp add: splitting_provider_def rows2_def)
  have perm: "mset (rev (dataset ?P)) = mset (dataset ?P)" by simp
  have al: "cache_allocated ?P one_array_heap"
    by (simp add: cache_allocated_def cache_refs_def splitting_provider_def one_array_heap_def
          alloc_def empty_heap_def)
  from split_partitions_dataset [where ratio = "1 / 2" and p = "?P" and rng = rev and h = one_array_heap and sh = True, OF r n perm al]
  obtain k A B h' where
    S: "split rev ?P one_array_heap (1 / 2) True =
          (Inr (A, B), ?P\<lparr>dataset := (if True then rev (dataset ?P) else dataset ?P)\<rparr>, h')"
    and P: "dataset A @ dataset B = (if True then rev (dataset ?P) else dataset ?P)"
    by (elim exE conjE) (rule that, assumption+)
  have "dataset A @ dataset B = [(''b.bin'', PyStr ''dog''), (''a.bin'', PyStr ''cat'')]"
    using P by (simp add: splitting_provider_def rows2_def)
  then have c: "(case fst (split rev ?P one_array_heap (1 / 2) True) of
         Inl e \<Rightarrow> False
       | Inr (A, B) \<Rightarrow> dataset A @ dataset B = [(''b.bin'', PyStr ''dog''), (''a.bin'', PyStr ''cat'')])"
    by (simp add: S)
  show ?thesis using r n perm split_two c by blast
qed

theorem split_repeated_descriptor_counterexample:
  "(0::rat) < 1 / 2 \<and> (1 / 2 :: rat) < 1
   \<and> fst (split rev (splitting_provider rows_twice) one_array_heap (1 / 2) False) =
        Inr ((splitting_provider rows_twice)
               \<lparr>dataset := [(''a.bin'', PyStr ''cat'')],
                cache := [(''a.bin'', (Ref 1, Scalar (PyStr ''cat'')))]\<rparr>,
             (splitting_provider rows_twice)
               \<lparr>dataset := [(''a.bin'', PyStr ''cat'')],
                cache := [(''a.bin'', (Ref 2, Scalar (PyStr ''cat'')))]\<rparr>)
   \<and> set (dataset ((splitting_provider rows_twice)
               \<lparr>dataset := [(''a.bin'', PyStr ''cat'')],
                cache := [(''a.bin'', (Ref 1, Scalar (PyStr ''cat'')))]\<rparr>))
       \<inter> set (dataset ((splitting_provider rows_twice)
               \<lparr>dataset := [(''a.bin'', PyStr ''cat'')],
                cache := [(''a.bin'', (Ref 2, Scalar (PyStr ''cat'')))]\<rparr>))
       = {(''a.bin'', PyStr ''cat'')}"
  using split_twice by simp

end
